theory Spec2Isabelle
  imports Main
begin

section \<open>The host page as seen by clickHearts.js\<close>

text \<open>
  The script \<open>clickHearts.js\<close> drives a live document.  The model keeps the parts of the
  document that the script reads or writes: the \<open>i.ud.ud-heart\<close> elements in document
  order, the geometry of the optional \<open>.infinite-scroll.scrolling-grid\<close> element, and the
  geometry of the window.  Pixel values are modelled as integers.

  What \<open>click()\<close> does to a heart is decided by the page's own handler.  The model gives
  every heart one of three behaviours: the handler adds the class \<open>filled\<close>, the handler
  leaves the classes alone, or the call throws.  A click changes the clicked heart only.
  The page changes the document where the script pauses: after a scroll command, while the
  script waits for mutations, and after the script has returned.
\<close>

datatype click_behaviour = Fills | Ignores | Throws

text \<open>
  \<open>visible\<close> stands for \<open>offsetParent !== null\<close>, \<open>filled\<close> for
  \<open>classList.contains('filled')\<close>.
\<close>

record heart =
  visible :: bool
  filled :: bool
  on_click :: click_behaviour

record geometry =
  scrollTop :: int
  clientHeight :: int
  scrollHeight :: int

text \<open>
  \<open>grid\<close> is the geometry of the element \<open>.infinite-scroll.scrolling-grid\<close> when the
  document has one; \<open>scrollY\<close> and \<open>innerHeight\<close> are those of \<open>window\<close>,
  \<open>body_scrollHeight\<close> is \<open>document.body.scrollHeight\<close>.
\<close>

record dom =
  hearts :: "heart list"
  grid :: "geometry option"
  scrollY :: int
  innerHeight :: int
  body_scrollHeight :: int

datatype error = ClickFailed nat

text \<open>
  The records handed to the mutation callback, as far as the callback looks at them.
\<close>

datatype node_type = ELEMENT_NODE | TEXT_NODE | COMMENT_NODE

record node =
  nodeType :: node_type
  tagName :: string

datatype mutation_type = childList | attributes | characterData

record mutation =
  mtype :: mutation_type
  addedNodes :: "node list"

text \<open>
  \<open>clickAllHearts\<close> is an \<open>async\<close> function, and so is the callback it hands to the
  \<open>MutationObserver\<close>.  Nothing awaits the callback: the observer calls it once for every
  batch of records it delivers, each call runs up to its first \<open>await\<close> (line 99), and the
  rest of its body runs after a timer of 300 ms, whatever the main flow is doing by then.
  The timer of line 209 is a third party.  While the main flow is suspended at an \<open>await\<close>,
  the following can happen, in an order that the page and the clock decide:

    \<^item> \<open>Mutation f records\<close>: the page changes the document from \<open>d\<close> to \<open>f d\<close>; when the
      observer is observing, it calls the callback with \<open>records\<close>;
    \<^item> \<open>CallbackResumes\<close>: a call of the callback that is suspended at line 99 runs the
      rest of its body (lines 101 to 111);
    \<^item> \<open>TimerFires\<close>: a timer set at line 209, and not cleared since, runs its function
      (lines 210 and 211).

  The model does not measure time: the page says in which order these things happen, and
  so decides how long a suspended call or a timer has to wait for its turn.
\<close>

datatype happening =
    Mutation "dom \<Rightarrow> dom" "mutation list"
  | CallbackResumes
  | TimerFires

text \<open>
  The page as the script meets it.  \<open>scroll_response\<close> takes the flag \<open>isWindowScroll\<close>
  and the document before a scroll command and gives the document as the command and the
  page's reaction to it leave it.  \<open>pause_response\<close> lists what else happens during the pause
  that follows the command (line 168), \<open>wait_response\<close> what happens while the script waits
  at line 207, \<open>final_response\<close> what happens after the script has returned; each takes the
  document found at the start.
\<close>

record host =
  scroll_response :: "bool \<Rightarrow> dom \<Rightarrow> dom"
  pause_response :: "dom \<Rightarrow> happening list"
  wait_response :: "dom \<Rightarrow> happening list"
  final_response :: "dom \<Rightarrow> happening list"

section \<open>Run state and observable steps\<close>

text \<open>
  The variables of \<open>clickAllHearts\<close> become the fields of \<open>state\<close>; \<open>resolve_set\<close>
  says that \<open>currentScrollOperation.resolve\<close> is not null.  \<open>callbacks_pending\<close> counts the
  calls of the callback that are suspended at line 99.  \<open>timer_armed\<close> says that the timer
  whose id is in \<open>mutationTimeoutId\<close> has neither fired nor been cleared; \<open>stale_timers\<close>
  counts the timers of earlier waits that are still to fire (their ids have been
  overwritten, so nothing can clear them).  The field \<open>trace\<close> lists, in
  the order in which they happen, the steps of a run that the properties below speak about:
  a \<open>click()\<close> that returned, a \<open>console.error\<close> of the \<open>catch\<close> block, a timer pause,
  a scroll command, \<open>observe\<close> and \<open>disconnect\<close> of the observer, the start of an
  iteration of the main loop, the end of a pass of \<open>processVisibleHearts\<close> with the call
  site and the value returned, and an assignment to \<open>scrollsWithoutNewHearts\<close>.
  Messages of \<open>console.log\<close> are not modelled.
\<close>

datatype scan_kind = InitialScan | BottomCheck | ObserverScan | PostWaitScan

datatype event =
    Click nat
  | ConsoleError error
  | Delay nat
  | ScrollCommand
  | Observe
  | Disconnect
  | CycleStart
  | Pass scan_kind nat
  | Counter nat

record state =
  page :: dom
  scrollsWithoutNewHearts :: nat
  totalHeartsClicked :: nat
  processedHeartsInCycle :: bool
  resolve_set :: bool
  callbacks_pending :: nat
  timer_armed :: bool
  stale_timers :: nat
  trace :: "event list"

definition delayBetweenClicks :: nat where
  "delayBetweenClicks = 100"

definition maxScrollsWithoutNewHearts :: nat where
  "maxScrollsWithoutNewHearts = 4"

definition aggressiveScrollPause :: nat where
  "aggressiveScrollPause = 300"

definition maxAggressiveScrollAttemptsAtBottom :: nat where
  "maxAggressiveScrollAttemptsAtBottom = 3"

text \<open>
  \<open>emit\<close> appends steps to the trace; \<open>set_counter\<close> is an assignment to
  \<open>scrollsWithoutNewHearts\<close>.
\<close>

definition emit :: "event list \<Rightarrow> state \<Rightarrow> state" where
  "emit es st = st\<lparr>trace := trace st @ es\<rparr>"

definition set_counter :: "nat \<Rightarrow> state \<Rightarrow> state" where
  "set_counter v st = emit [Counter v] (st\<lparr>scrollsWithoutNewHearts := v\<rparr>)"

section \<open>processVisibleHearts\<close>

text \<open>\<open>document.querySelectorAll('i.ud.ud-heart:not(.filled)')\<close>: a static list of the
  hearts (given by their position) that do not carry the class \<open>filled\<close> at the time of
  the query.\<close>

definition querySelectorAll_unfilled :: "dom \<Rightarrow> nat list" where
  "querySelectorAll_unfilled d = filter (\<lambda>i. \<not> filled (hearts d ! i)) [0..<length (hearts d)]"

text \<open>\<open>heartIcon.click()\<close>.\<close>

definition click :: "nat \<Rightarrow> dom \<Rightarrow> error + dom" where
  "click i d =
     (case on_click (hearts d ! i) of
        Throws \<Rightarrow> Inl (ClickFailed i)
      | Ignores \<Rightarrow> Inr d
      | Fills \<Rightarrow> Inr (d\<lparr>hearts := (hearts d)[i := (hearts d ! i)\<lparr>filled := True\<rparr>]\<rparr>))"

text \<open>The body of the \<open>try\<close> block: click, count, pause.  An exception of \<open>click()\<close>
  leaves the block before anything is counted.\<close>

definition try_click :: "nat \<Rightarrow> nat \<times> state \<Rightarrow> error + nat \<times> state" where
  "try_click i r =
     (case r of (k, st) \<Rightarrow>
        (case click i (page st) of
           Inl e \<Rightarrow> Inl e
         | Inr d \<Rightarrow>
             Inr (k + 1,
                  emit [Click i, Delay delayBetweenClicks]
                    (st\<lparr>page := d, totalHeartsClicked := totalHeartsClicked st + 1\<rparr>))))"

text \<open>The \<open>for ... of\<close> loop over the static list.  An element that is no longer in the
  document has \<open>offsetParent === null\<close>.\<close>

fun visit_hearts :: "nat list \<Rightarrow> nat \<times> state \<Rightarrow> error + nat \<times> state" where
  "visit_hearts [] r = Inr r"
| "visit_hearts (i # rest) (k, st) =
     (if \<not> i < length (hearts (page st)) \<or> \<not> visible (hearts (page st) ! i)
         \<or> filled (hearts (page st) ! i)
      then visit_hearts rest (k, st)
      else (case try_click i (k, st) of
              Inl e \<Rightarrow> visit_hearts rest (k, emit [ConsoleError e] st)
            | Inr r \<Rightarrow> visit_hearts rest r))"

text \<open>
  Lines 53 to 77.  The result is a sum so that an exception leaving the function would be a
  value \<open>Inl\<close>; the \<open>catch\<close> inside the loop is the only place where an exception
  is handled.  A pass is one step of the model: the document changes during a pass by the
  clicks of the pass only, and what the page, the timers and suspended callbacks do during
  the pauses of line 71 is placed at the next pause of the main flow outside a pass.
\<close>

definition processVisibleHearts :: "state \<Rightarrow> error + nat \<times> state" where
  "processVisibleHearts st =
     (let unfilledHearts = querySelectorAll_unfilled (page st)
      in if length unfilledHearts = 0 then Inr (0, st)
         else visit_hearts unfilledHearts (0, st))"

section \<open>The mutation callback and the wait phase\<close>

text \<open>
  Lines 80 to 91: is there a \<open>childList\<close> record that adds an element other than
  \<open>SCRIPT\<close>, \<open>STYLE\<close> or \<open>LINK\<close>?
\<close>

definition hasNonScriptOrStyleNodes :: "node list \<Rightarrow> bool" where
  "hasNonScriptOrStyleNodes ns =
     list_ex (\<lambda>n. nodeType n = ELEMENT_NODE \<and> tagName n \<notin> set [''SCRIPT'', ''STYLE'', ''LINK'']) ns"

fun relevantMutationDetected :: "mutation list \<Rightarrow> bool" where
  "relevantMutationDetected [] = False"
| "relevantMutationDetected (m # ms) =
     (if mtype m = childList \<and> length (addedNodes m) > 0 \<and> hasNonScriptOrStyleNodes (addedNodes m)
      then True
      else relevantMutationDetected ms)"

text \<open>
  \<open>mutationCallback\<close> is split where it is suspended.  \<open>mutationCallback_begin\<close> is the
  part that runs when the observer calls it with a batch, lines 80 to 98: a batch without a
  relevant record changes nothing; otherwise the timer of the wait is cleared when a wait is
  pending, and the call is suspended for 300 ms.
\<close>

definition mutationCallback_begin :: "mutation list \<Rightarrow> state \<Rightarrow> state" where
  "mutationCallback_begin mutationsList st =
     (if relevantMutationDetected mutationsList then
        (let st1 = (if resolve_set st then st\<lparr>timer_armed := False\<rparr> else st)
         in st1\<lparr>callbacks_pending := callbacks_pending st1 + 1\<rparr>)
      else st)"

text \<open>
  \<open>mutationCallback_resume\<close> is the part that runs after the 300 ms, lines 101 to 111: a
  pass over the hearts, the flag \<open>processedHeartsInCycle\<close>, and a call of
  \<open>currentScrollOperation.resolve\<close> when it is not null.  The flag of the result says
  whether \<open>resolve\<close> was called.
\<close>

definition mutationCallback_resume :: "state \<Rightarrow> error + bool \<times> state" where
  "mutationCallback_resume st =
     (case processVisibleHearts (emit [Delay 300] st) of
        Inl e \<Rightarrow> Inl e
      | Inr (heartsClickedByObserver, st1) \<Rightarrow>
          (let st2 = emit [Pass ObserverScan heartsClickedByObserver] st1;
               st3 = (if heartsClickedByObserver > 0
                      then st2\<lparr>processedHeartsInCycle := True\<rparr> else st2)
           in Inr (resolve_set st3, st3)))"

text \<open>
  The function of the timer, lines 210 and 211.  Of the timers still to fire, the oldest
  fires first (all are set for the same time span).  The flag of the result says whether
  \<open>resolve\<close> was called.
\<close>

definition timer_function :: "state \<Rightarrow> bool \<times> state" where
  "timer_function st =
     (if 0 < stale_timers st then (resolve_set st, st\<lparr>stale_timers := stale_timers st - 1\<rparr>)
      else if timer_armed st then (resolve_set st, st\<lparr>timer_armed := False\<rparr>)
      else (False, st))"

text \<open>
  One happening while the main flow is suspended.  \<open>observing\<close> says whether the observer
  is observing.  \<open>CallbackResumes\<close> does nothing when no call is suspended.  An exception
  in the callback would reject a promise that nobody looks at.
\<close>

definition happen :: "bool \<Rightarrow> happening \<Rightarrow> state \<Rightarrow> bool \<times> state" where
  "happen observing e st =
     (case e of
        Mutation f mutationsList \<Rightarrow>
          (let st1 = st\<lparr>page := f (page st)\<rparr>
           in (False, if observing then mutationCallback_begin mutationsList st1 else st1))
      | CallbackResumes \<Rightarrow>
          (if callbacks_pending st = 0 then (False, st)
           else (let st1 = st\<lparr>callbacks_pending := callbacks_pending st - 1\<rparr>
                 in (case mutationCallback_resume st1 of
                       Inl err \<Rightarrow> (False, st1)
                     | Inr r \<Rightarrow> r)))
      | TimerFires \<Rightarrow> timer_function st)"

text \<open>
  When the page has nothing more in store, the clock decides what happens next: a call of
  the callback that is suspended resumes (after its 300 ms), and otherwise a timer fires
  (after its \<open>mutationCheckTimeout\<close>).
\<close>

definition next_by_the_clock :: "state \<Rightarrow> happening" where
  "next_by_the_clock st = (if 0 < callbacks_pending st then CallbackResumes else TimerFires)"

text \<open>
  The \<open>await\<close> of line 207: the main flow goes on as soon as \<open>resolve\<close> has been called,
  and what the page had in store after that moment does not happen during this wait.
  \<open>None\<close> when nothing is left that could call \<open>resolve\<close>; the lemma
  \<open>wait_phase_returns\<close> below shows that this is never so in a wait of \<open>clickAllHearts\<close>.
\<close>

fun wait_events :: "happening list \<Rightarrow> state \<Rightarrow> state option" where
  "wait_events [] st =
     (case happen True (next_by_the_clock st) st of
        (True, st1) \<Rightarrow> Some st1
      | (False, st1) \<Rightarrow> None)"
| "wait_events (e # es) st =
     (case happen True e st of
        (True, st1) \<Rightarrow> Some st1
      | (False, st1) \<Rightarrow> wait_events es st1)"

text \<open>
  What happens during a pause of the main flow other than the wait: the observer is
  disconnected and \<open>resolve\<close> is null, so a callback that resumes, or a timer that fires,
  wakes nobody.
\<close>

fun background :: "happening list \<Rightarrow> state \<Rightarrow> state" where
  "background [] st = st"
| "background (e # es) st = background es (snd (happen False e st))"

text \<open>
  Lines 201 to 217: clear the flag, arm the observer and the timer, wait until \<open>resolve\<close>
  is called, disconnect.  Calls of the callback that are still suspended when the wait is
  over stay suspended: \<open>disconnect()\<close> stops new calls only.
\<close>

definition wait_phase :: "host \<Rightarrow> state \<Rightarrow> state option" where
  "wait_phase h st =
     (let st1 = emit [Observe] (st\<lparr>processedHeartsInCycle := False\<rparr>);
          st2 = st1\<lparr>resolve_set := True,
                    stale_timers := stale_timers st1 + (if timer_armed st1 then 1 else 0),
                    timer_armed := True\<rparr>
      in (case wait_events (wait_response h (page st2)) st2 of
            None \<Rightarrow> None
          | Some st3 \<Rightarrow> Some ((emit [Disconnect] st3)\<lparr>resolve_set := False\<rparr>)))"

section \<open>The aggressive scroll\<close>

text \<open>
  The geometry read through \<open>scrollElement\<close>: that of the window when \<open>isWindowScroll\<close>
  holds, that of the grid element otherwise (all zero once the element has left the
  document).
\<close>

definition el :: "dom \<Rightarrow> geometry" where
  "el d = (case grid d of Some g \<Rightarrow> g
           | None \<Rightarrow> \<lparr>scrollTop = 0, clientHeight = 0, scrollHeight = 0\<rparr>)"

definition cur_scrollTop :: "bool \<Rightarrow> dom \<Rightarrow> int" where
  "cur_scrollTop isWindowScroll d = (if isWindowScroll then scrollY d else scrollTop (el d))"

definition cur_scrollHeight :: "bool \<Rightarrow> dom \<Rightarrow> int" where
  "cur_scrollHeight isWindowScroll d =
     (if isWindowScroll then body_scrollHeight d else scrollHeight (el d))"

definition cur_clientHeight :: "bool \<Rightarrow> dom \<Rightarrow> int" where
  "cur_clientHeight isWindowScroll d =
     (if isWindowScroll then innerHeight d else clientHeight (el d))"

text \<open>
  Lines 133 to 135.
\<close>

definition canStillScroll :: "bool \<Rightarrow> dom \<Rightarrow> bool" where
  "canStillScroll isWindowScroll d =
     (if isWindowScroll then innerHeight d + scrollY d < body_scrollHeight d - 5
      else scrollTop (el d) + clientHeight (el d) < scrollHeight (el d) - 5)"

text \<open>
  Lines 162 to 168: the scroll command and the pause that follows it.
\<close>

definition scroll_and_pause :: "host \<Rightarrow> bool \<Rightarrow> state \<Rightarrow> state" where
  "scroll_and_pause h isWindowScroll st =
     (let st1 = emit [ScrollCommand, Delay aggressiveScrollPause]
                  (st\<lparr>page := scroll_response h isWindowScroll (page st)\<rparr>)
      in background (pause_response h (page st1)) st1)"

text \<open>
  The inner \<open>while\<close> loop, lines 159 to 188, with fuel: \<open>None\<close> when the fuel runs out
  before the loop leaves.  The arguments after the flag are \<open>aggressiveScrollAttempts\<close> and
  \<open>actualScrollHappenedInAggressiveLoop\<close>; the result gives their values when the loop is
  left, and the state.
\<close>

fun aggressive_scroll :: "nat \<Rightarrow> host \<Rightarrow> bool \<Rightarrow> nat \<Rightarrow> bool \<Rightarrow> state \<Rightarrow> (nat \<times> bool \<times> state) option" where
  "aggressive_scroll 0 h isWindowScroll attempts moved st = None"
| "aggressive_scroll (Suc fuel) h isWindowScroll attempts moved st =
     (if \<not> attempts < maxAggressiveScrollAttemptsAtBottom then Some (attempts, moved, st)
      else
        (let previousScrollTop = cur_scrollTop isWindowScroll (page st);
             st1 = scroll_and_pause h isWindowScroll st;
             newScrollTop = cur_scrollTop isWindowScroll (page st1);
             stuck = (newScrollTop \<le> previousScrollTop + 5);
             attempts1 = (if stuck then attempts + 1 else 0);
             moved1 = (if stuck then moved else True);
             currentScrollHeight = cur_scrollHeight isWindowScroll (page st1);
             currentClientHeight = cur_clientHeight isWindowScroll (page st1)
         in if newScrollTop + currentClientHeight \<ge> currentScrollHeight - 5 \<and> stuck
            then Some (attempts1, moved1, st1)
            else aggressive_scroll fuel h isWindowScroll attempts1 moved1 st1))"

section \<open>clickAllHearts\<close>

text \<open>Lines 138 to 147: the scan at what seems to be the bottom.\<close>

definition bottom_check :: "state \<Rightarrow> error + state" where
  "bottom_check st =
     (case processVisibleHearts st of
        Inl e \<Rightarrow> Inl e
      | Inr (heartsFoundAtBottomCheck, st1) \<Rightarrow>
          (let st2 = emit [Pass BottomCheck heartsFoundAtBottomCheck] st1
           in Inr (if heartsFoundAtBottomCheck > 0 then set_counter 0 st2
                   else if \<not> processedHeartsInCycle st2
                        then set_counter (scrollsWithoutNewHearts st2 + 1) st2
                        else st2)))"

text \<open>Lines 219 to 231: the decision after the wait.\<close>

definition post_wait :: "state \<Rightarrow> error + state" where
  "post_wait st =
     (if processedHeartsInCycle st then Inr (set_counter 0 st)
      else (case processVisibleHearts st of
              Inl e \<Rightarrow> Inl e
            | Inr (heartsAfterCycle, st1) \<Rightarrow>
                (let st2 = emit [Pass PostWaitScan heartsAfterCycle] st1
                 in Inr (if heartsAfterCycle > 0 then set_counter 0 st2
                         else set_counter (scrollsWithoutNewHearts st2 + 1) st2))))"

text \<open>Lines 154 to 232: aggressive scroll, wait, decision.\<close>

definition grow_and_wait :: "nat \<Rightarrow> host \<Rightarrow> bool \<Rightarrow> state \<Rightarrow> (error + state) option" where
  "grow_and_wait fuel h isWindowScroll st =
     (case aggressive_scroll fuel h isWindowScroll 0 False st of
        None \<Rightarrow> None
      | Some (aggressiveScrollAttempts, actualScrollHappened, st1) \<Rightarrow>
          (case wait_phase h st1 of
             None \<Rightarrow> None
           | Some st2 \<Rightarrow> Some (post_wait st2)))"

text \<open>
  One iteration of the main \<open>while\<close> loop, lines 128 to 232.  The iteration ends either at
  the \<open>break\<close> of line 150 or at the end of the loop body; \<open>None\<close> when the inner loop does
  not leave within the fuel \<open>inner\<close> (the wait always ends, see \<open>wait_phase_returns\<close>).
\<close>

datatype step = Continue state | Break state

definition cycle :: "nat \<Rightarrow> host \<Rightarrow> state \<Rightarrow> (error + step) option" where
  "cycle inner h st =
     (let st0 = emit [CycleStart] st;
          isWindowScroll = (grid (page st0) = None)
      in (case (if \<not> canStillScroll isWindowScroll (page st0)
                then bottom_check st0 else Inr st0) of
            Inl e \<Rightarrow> Some (Inl e)
          | Inr st1 \<Rightarrow>
              if \<not> canStillScroll isWindowScroll (page st0)
                 \<and> scrollsWithoutNewHearts st1 \<ge> maxScrollsWithoutNewHearts
              then Some (Inr (Break st1))
              else (case grow_and_wait inner h isWindowScroll st1 of
                      None \<Rightarrow> None
                    | Some (Inl e) \<Rightarrow> Some (Inl e)
                    | Some (Inr st2) \<Rightarrow> Some (Inr (Continue st2)))))"

text \<open>
  The main \<open>while\<close> loop, lines 127 to 233, with fuel: \<open>None\<close> when the run does not
  leave the loop within the fuel given.  The first argument is the fuel handed to the inner
  loop of every iteration.
\<close>

fun main_loop :: "nat \<Rightarrow> nat \<Rightarrow> host \<Rightarrow> state \<Rightarrow> (error + state) option" where
  "main_loop inner 0 h st = None"
| "main_loop inner (Suc fuel) h st =
     (if \<not> scrollsWithoutNewHearts st < maxScrollsWithoutNewHearts then Some (Inr st)
      else (case cycle inner h st of
              None \<Rightarrow> None
            | Some (Inl e) \<Rightarrow> Some (Inl e)
            | Some (Inr (Break st1)) \<Rightarrow> Some (Inr st1)
            | Some (Inr (Continue st2)) \<Rightarrow> main_loop inner fuel h st2))"

text \<open>
  The state at the head of the main loop after \<open>k\<close> complete iterations, whether or not the
  loop is ever left; \<open>None\<close> when the run does not get that far.
\<close>

fun head_after :: "nat \<Rightarrow> nat \<Rightarrow> host \<Rightarrow> state \<Rightarrow> state option" where
  "head_after inner 0 h st = Some st"
| "head_after inner (Suc k) h st =
     (if \<not> scrollsWithoutNewHearts st < maxScrollsWithoutNewHearts then None
      else (case cycle inner h st of
              Some (Inr (Continue st2)) \<Rightarrow> head_after inner k h st2
            | _ \<Rightarrow> None))"

text \<open>
  The decimal text of a number, as the template literal of line 242 produces it.
\<close>

definition digit_char :: "nat \<Rightarrow> char" where
  "digit_char d = char_of (48 + d)"

function show_nat :: "nat \<Rightarrow> string" where
  "show_nat n = (if n < 10 then [digit_char n] else show_nat (n div 10) @ [digit_char (n mod 10)])"
  by pat_completeness auto
termination
  by (relation "measure id") auto

declare show_nat.simps [simp del]

definition init_state :: "dom \<Rightarrow> state" where
  "init_state d =
     \<lparr>page = d, scrollsWithoutNewHearts = 0, totalHeartsClicked = 0,
      processedHeartsInCycle = False, resolve_set = False,
      callbacks_pending = 0, timer_armed = False, stale_timers = 0, trace = []\<rparr>"

text \<open>Lines 118 to 125: the first scan.\<close>

definition initial_scan :: "state \<Rightarrow> error + state" where
  "initial_scan st =
     (case processVisibleHearts st of
        Inl e \<Rightarrow> Inl e
      | Inr (heartsProcessedInitially, st1) \<Rightarrow>
          (let st2 = emit [Pass InitialScan heartsProcessedInitially] st1
           in Inr (if heartsProcessedInitially > 0 then set_counter 0 st2 else st2)))"

text \<open>
  The whole routine.  The value returned by the script is the string; the state at the
  return is kept beside it so that properties of the run can be stated.
\<close>

definition clickAllHearts :: "nat \<Rightarrow> host \<Rightarrow> dom \<Rightarrow> (error + string \<times> state) option" where
  "clickAllHearts fuel h d =
     (case initial_scan (init_state d) of
        Inl e \<Rightarrow> Some (Inl e)
      | Inr st1 \<Rightarrow>
          (case main_loop fuel fuel h st1 of
             None \<Rightarrow> None
           | Some (Inl e) \<Rightarrow> Some (Inl e)
           | Some (Inr st2) \<Rightarrow>
               (let st3 = emit [Disconnect] st2
                in Some (Inr (''Total hearts clicked: '' @ show_nat (totalHeartsClicked st3), st3)))))"

text \<open>
  What still happens once \<open>clickAllHearts\<close> has returned: what the page has in store,
  and then every call of the callback that is still suspended runs the rest of its body.
\<close>

definition afterwards :: "host \<Rightarrow> state \<Rightarrow> state" where
  "afterwards h st =
     (let st1 = background (final_response h (page st)) st
      in background (replicate (callbacks_pending st1) CallbackResumes) st1)"

section \<open>What a pass does, in closed form\<close>

text \<open>
  The definitions of this section describe the outcome of one pass of
  \<open>processVisibleHearts\<close> as a function of the hearts found at its start; the lemma
  \<open>processVisibleHearts_closed\<close> below proves that the loop computes exactly this.
  A heart is \<open>actionable\<close> when it is visible and not filled; \<open>pass_targets\<close> lists the
  actionable hearts in document order; \<open>returns\<close> says that \<open>click()\<close> on a heart does not
  throw; \<open>pass_events\<close> is what the pass adds to the trace.
\<close>

definition actionable :: "heart \<Rightarrow> bool" where
  "actionable h \<longleftrightarrow> visible h \<and> \<not> filled h"

definition clicked_heart :: "heart \<Rightarrow> heart" where
  "clicked_heart h = (if actionable h \<and> on_click h = Fills then h\<lparr>filled := True\<rparr> else h)"

definition target :: "heart list \<Rightarrow> nat \<Rightarrow> bool" where
  "target hs i \<longleftrightarrow> i < length hs \<and> actionable (hs ! i)"

definition returns :: "heart list \<Rightarrow> nat \<Rightarrow> bool" where
  "returns hs i \<longleftrightarrow> on_click (hs ! i) \<noteq> Throws"

definition target_events :: "heart list \<Rightarrow> nat \<Rightarrow> event list" where
  "target_events hs i =
     (if returns hs i then [Click i, Delay delayBetweenClicks]
      else [ConsoleError (ClickFailed i)])"

definition pass_targets :: "heart list \<Rightarrow> nat list" where
  "pass_targets hs = filter (target hs) [0..<length hs]"

definition pass_count :: "heart list \<Rightarrow> nat" where
  "pass_count hs = length (filter (returns hs) (pass_targets hs))"

definition pass_events :: "heart list \<Rightarrow> event list" where
  "pass_events hs = concat (map (target_events hs) (pass_targets hs))"

definition after_pass :: "heart list \<Rightarrow> state \<Rightarrow> state" where
  "after_pass hs st =
     st\<lparr>page := (page st)\<lparr>hearts := map clicked_heart hs\<rparr>,
        totalHeartsClicked := totalHeartsClicked st + pass_count hs,
        trace := trace st @ pass_events hs\<rparr>"

text \<open>
  The same outcome for a loop over any list of positions, used in the induction.
\<close>

fun apply_clicks :: "nat list \<Rightarrow> heart list \<Rightarrow> heart list" where
  "apply_clicks [] hs = hs"
| "apply_clicks (i # rest) hs = apply_clicks rest (hs[i := clicked_heart (hs ! i)])"

definition visited :: "nat list \<Rightarrow> nat \<Rightarrow> state \<Rightarrow> nat \<times> state" where
  "visited is k st =
     (let hs = hearts (page st); ts = filter (target hs) is
      in (k + length (filter (returns hs) ts),
          st\<lparr>page := (page st)\<lparr>hearts := apply_clicks is hs\<rparr>,
             totalHeartsClicked := totalHeartsClicked st + length (filter (returns hs) ts),
             trace := trace st @ concat (map (target_events hs) ts)\<rparr>))"

text \<open>\<open>repeat_pass n\<close> runs \<open>n\<close> passes one after the other on an unchanging page.\<close>

fun repeat_pass :: "nat \<Rightarrow> state \<Rightarrow> state" where
  "repeat_pass 0 st = st"
| "repeat_pass (Suc n) st =
     (case processVisibleHearts st of Inl e \<Rightarrow> st | Inr (k, st1) \<Rightarrow> repeat_pass n st1)"

section \<open>Reading a trace\<close>

text \<open>
  \<open>clicks\<close> counts the \<open>click()\<close> calls that returned, \<open>cycles\<close> the iterations of the main
  loop; \<open>scroll_events n\<close> is the trace of \<open>n\<close> scroll commands, each with its pause.
\<close>

fun is_Click :: "event \<Rightarrow> bool" where
  "is_Click (Click i) = True"
| "is_Click e = False"

definition clicks :: "event list \<Rightarrow> nat" where
  "clicks tr = length (filter is_Click tr)"

definition cycles :: "event list \<Rightarrow> nat" where
  "cycles tr = count_list tr CycleStart"

definition scroll_events :: "nat \<Rightarrow> event list" where
  "scroll_events n = concat (replicate n [ScrollCommand, Delay aggressiveScrollPause])"

text \<open>
  \<open>observer_run\<close> reads a trace from left to right with a flag that says whether a
  subscription of the observer is outstanding.  It gives \<open>None\<close> when \<open>observe\<close> is called
  while one is outstanding, or when an iteration of the main loop starts with one
  outstanding; otherwise it gives the flag at the end of the trace.
\<close>

fun observer_run :: "bool \<Rightarrow> event list \<Rightarrow> bool option" where
  "observer_run a [] = Some a"
| "observer_run a (Observe # es) = (if a then None else observer_run True es)"
| "observer_run a (Disconnect # es) = observer_run False es"
| "observer_run a (CycleStart # es) = (if a then None else observer_run a es)"
| "observer_run a (e # es) = observer_run a es"

text \<open>
  The steps that the callback adds to a trace: clicks, reports of the \<open>catch\<close> block,
  pauses, and the end of its pass.
\<close>

fun by_callback :: "event \<Rightarrow> bool" where
  "by_callback (Click i) = True"
| "by_callback (ConsoleError e) = True"
| "by_callback (Delay n) = True"
| "by_callback (Pass ObserverScan n) = True"
| "by_callback e = False"



text \<open>
  \<open>within_threshold\<close> says of a step that it does not assign a value above
  \<open>maxScrollsWithoutNewHearts\<close> to the counter.
\<close>

fun within_threshold :: "event \<Rightarrow> bool" where
  "within_threshold (Counter c) = (c \<le> maxScrollsWithoutNewHearts)"
| "within_threshold e = True"

text \<open>
  \<open>counter_run\<close> reads a trace from left to right with a flag that says whether a pass has
  clicked at least one heart since the last assignment to \<open>scrollsWithoutNewHearts\<close>.  It
  gives \<open>None\<close> when a value above the threshold is assigned, or when the first assignment
  after such a pass is not zero; otherwise it gives the flag at the end of the trace.
\<close>

fun counter_run :: "bool \<Rightarrow> event list \<Rightarrow> bool option" where
  "counter_run p [] = Some p"
| "counter_run p (Pass k n # es) = counter_run (p \<or> 0 < n) es"
| "counter_run p (Counter c # es) =
     (if maxScrollsWithoutNewHearts < c \<or> (p \<and> c \<noteq> 0) then None else counter_run False es)"
| "counter_run p (e # es) = counter_run p es"

text \<open>
  \<open>reset_run\<close> reads a trace like \<open>counter_run\<close>, but it holds the main flow to a reset
  only for the passes that the main flow waits for.  \<open>Owed\<close> says that the next step has
  to be the assignment of zero to the counter: after a pass of the main flow that clicked a
  heart, and after the \<open>disconnect\<close> that follows at once a pass of the callback that
  clicked a heart (that pass ended the wait).  \<open>Seen\<close> says that the last step was a pass
  of the callback that clicked a heart.  \<open>reset_run\<close> gives \<open>None\<close> when a reset
  that is owed does not come.
\<close>

datatype owing = Idle | Seen | Owed

fun reset_step :: "owing \<Rightarrow> event \<Rightarrow> owing option" where
  "reset_step Owed e = (if e = Counter 0 then Some Idle else None)"
| "reset_step q (Pass k n) =
     Some (if 0 < n then (if k = ObserverScan then Seen else Owed) else Idle)"
| "reset_step Seen Disconnect = Some Owed"
| "reset_step q e = Some Idle"

fun reset_run :: "owing \<Rightarrow> event list \<Rightarrow> owing option" where
  "reset_run q [] = Some q"
| "reset_run q (e # es) = (case reset_step q e of None \<Rightarrow> None | Some q1 \<Rightarrow> reset_run q1 es)"

section \<open>Predicates on documents and states\<close>

text \<open>
  The test of line 182.
\<close>

definition at_effective_bottom :: "bool \<Rightarrow> dom \<Rightarrow> bool" where
  "at_effective_bottom isWindowScroll d \<longleftrightarrow>
     cur_scrollHeight isWindowScroll d - 5
       \<le> cur_scrollTop isWindowScroll d + cur_clientHeight isWindowScroll d"


text \<open>
  A happening that leaves the document \<open>d\<close> as it is and starts no pass of the callback.
\<close>

definition quiet :: "dom \<Rightarrow> happening \<Rightarrow> bool" where
  "quiet d e =
     (case e of Mutation f mutationsList \<Rightarrow> f d = d \<and> \<not> relevantMutationDetected mutationsList
      | CallbackResumes \<Rightarrow> True
      | TimerFires \<Rightarrow> True)"

text \<open>
  A document that never grows: no heart is unfilled, a scroll command leaves the document
  as it is, and so does everything that happens during a pause or a wait; no relevant
  mutation is delivered (so the wait ends when its timer fires).
\<close>

definition never_grows :: "host \<Rightarrow> dom \<Rightarrow> bool" where
  "never_grows h d \<longleftrightarrow>
     querySelectorAll_unfilled d = []
     \<and> scroll_response h (grid d = None) d = d
     \<and> list_all (quiet d) (pause_response h d)
     \<and> list_all (quiet d) (wait_response h d)"

text \<open>
  The invariants of the main loop used below.
\<close>

definition counted :: "state \<Rightarrow> bool" where
  "counted st \<longleftrightarrow> totalHeartsClicked st = clicks (trace st)"

definition observer_idle :: "state \<Rightarrow> bool" where
  "observer_idle st \<longleftrightarrow> observer_run False (trace st) = Some False"

definition reset_idle :: "state \<Rightarrow> bool" where
  "reset_idle st \<longleftrightarrow> reset_run Idle (trace st) = Some Idle"

definition reset_open :: "state \<Rightarrow> bool" where
  "reset_open st \<longleftrightarrow>
     reset_run Idle (trace st) = Some Idle \<or> reset_run Idle (trace st) = Some Seen"

definition reset_after_wait :: "state \<Rightarrow> bool" where
  "reset_after_wait st \<longleftrightarrow>
     reset_run Idle (trace st) = Some (if processedHeartsInCycle st then Owed else Idle)"

definition at_head :: "state \<Rightarrow> bool" where
  "at_head st \<longleftrightarrow>
     scrollsWithoutNewHearts st \<le> maxScrollsWithoutNewHearts
     \<and> list_all within_threshold (trace st)"

definition at_grow :: "state \<Rightarrow> bool" where
  "at_grow st \<longleftrightarrow> at_head st \<and> scrollsWithoutNewHearts st < maxScrollsWithoutNewHearts"

section \<open>Example documents and pages\<close>

definition fresh :: heart where
  "fresh = \<lparr>visible = True, filled = False, on_click = Fills\<rparr>"

definition done_heart :: heart where
  "done_heart = \<lparr>visible = True, filled = True, on_click = Fills\<rparr>"

definition broken :: heart where
  "broken = \<lparr>visible = True, filled = False, on_click = Throws\<rparr>"

definition stubborn :: heart where
  "stubborn = \<lparr>visible = True, filled = False, on_click = Ignores\<rparr>"

definition hidden :: heart where
  "hidden = \<lparr>visible = False, filled = False, on_click = Fills\<rparr>"

definition window_dom :: "heart list \<Rightarrow> int \<Rightarrow> int \<Rightarrow> int \<Rightarrow> dom" where
  "window_dom hs y inner height =
     \<lparr>hearts = hs, grid = None, scrollY = y, innerHeight = inner, body_scrollHeight = height\<rparr>"

text \<open>
  A page that reacts to nothing.
\<close>

definition static_host :: host where
  "static_host =
     \<lparr>scroll_response = (\<lambda>isWindowScroll d. d),
      pause_response = (\<lambda>d. []),
      wait_response = (\<lambda>d. []),
      final_response = (\<lambda>d. [])\<rparr>"

text \<open>
  A page in two parts: a scroll command moves the window to the bottom, and the second part
  (\<open>n2\<close> more hearts) arrives during the first wait that finds the window at the bottom of
  the first part, with a mutation record for the observer when \<open>notify\<close> holds.  With the
  record, the callback runs its pass and ends the wait; without it, the timer ends the wait.
\<close>

definition added_card :: mutation where
  "added_card = \<lparr>mtype = childList,
                  addedNodes = [\<lparr>nodeType = ELEMENT_NODE, tagName = ''DIV''\<rparr>]\<rparr>"

definition two_page_dom :: "nat \<Rightarrow> dom" where
  "two_page_dom n1 = window_dom (replicate n1 fresh) 0 800 1600"

definition two_page_host :: "nat \<Rightarrow> bool \<Rightarrow> host" where
  "two_page_host n2 notify =
     \<lparr>scroll_response =
        (\<lambda>isWindowScroll d. d\<lparr>scrollY := max (scrollY d) (body_scrollHeight d - innerHeight d)\<rparr>),
      pause_response = (\<lambda>d. []),
      wait_response =
        (\<lambda>d. if body_scrollHeight d = 1600 \<and> 800 \<le> scrollY d
              then [Mutation
                      (\<lambda>d. d\<lparr>hearts := hearts d @ replicate n2 fresh, body_scrollHeight := 3200\<rparr>)
                      (if notify then [added_card] else [])]
              else []),
      final_response = (\<lambda>d. [])\<rparr>"


text \<open>A page on which every scroll command moves the window by 1000 pixels, for ever.\<close>

definition endless_host :: host where
  "endless_host =
     \<lparr>scroll_response =
        (\<lambda>isWindowScroll d.
           d\<lparr>scrollY := scrollY d + 1000, body_scrollHeight := body_scrollHeight d + 1000\<rparr>),
      pause_response = (\<lambda>d. []),
      wait_response = (\<lambda>d. []),
      final_response = (\<lambda>d. [])\<rparr>"

text \<open>
  A page that delivers two batches of records during one wait.  The window (800 pixels
  high) shows a document of 800 pixels without hearts.  During the first wait the page adds
  a card without a heart, which makes the document 100 pixels higher, and then another
  element: the observer calls the callback twice.  The first call finds no heart and ends
  the wait; the second is still suspended then.  During the pause after the next scroll
  command the page adds a heart, and the second call runs its pass.  Every later wait ends
  with the timer.
\<close>

definition late_host :: host where
  "late_host =
     \<lparr>scroll_response =
        (\<lambda>isWindowScroll d. d\<lparr>scrollY := max (scrollY d) (body_scrollHeight d - innerHeight d)\<rparr>),
      pause_response =
        (\<lambda>d. if body_scrollHeight d = 900 \<and> hearts d = []
              then [Mutation (\<lambda>d. d\<lparr>hearts := [fresh]\<rparr>) [], CallbackResumes]
              else []),
      wait_response =
        (\<lambda>d. if body_scrollHeight d = 800
              then [Mutation (\<lambda>d. d\<lparr>body_scrollHeight := 900\<rparr>) [added_card],
                    Mutation (\<lambda>d. d) [added_card]]
              else []),
      final_response = (\<lambda>d. [])\<rparr>"

text \<open>
  A page that delivers two batches of records during the last wait of the run.  The window
  shows a document without hearts and stands at the bottom all along.  The first wait sees
  a change of text that makes the document 2 pixels higher (the observer, which watches
  for \<open>childList\<close> only, gets no record of it), and ends with the timer.
  During the second wait the page adds two elements, one after the other: the first call of
  the callback finds no heart and ends the wait, the scan after the wait finds none either,
  and \<open>clickAllHearts\<close> returns while the second call is suspended.  Then the page adds a
  heart, and the second call runs its pass.
\<close>

definition straggler_host :: host where
  "straggler_host =
     \<lparr>scroll_response = (\<lambda>isWindowScroll d. d),
      pause_response = (\<lambda>d. []),
      wait_response =
        (\<lambda>d. if body_scrollHeight d = 800
              then [Mutation (\<lambda>d. d\<lparr>body_scrollHeight := 802\<rparr>) []]
              else [Mutation (\<lambda>d. d) [added_card], Mutation (\<lambda>d. d) [added_card]]),
      final_response = (\<lambda>d. [Mutation (\<lambda>d. d\<lparr>hearts := [fresh]\<rparr>) []])\<rparr>"

text \<open>
  The states in which the example runs below end.
\<close>

definition two_page_final :: state where
  "two_page_final =
     \<lparr>page = window_dom (replicate 5 done_heart) 2400 800 3200,
      scrollsWithoutNewHearts = 4, totalHeartsClicked = 5,
      processedHeartsInCycle = False, resolve_set = False,
      callbacks_pending = 0, timer_armed = False, stale_timers = 0,
      trace =
        [Click 0, Delay 100, Click 1, Delay 100, Pass InitialScan 2,
         Counter 0, CycleStart, ScrollCommand, Delay 300,
         ScrollCommand, Delay 300, Observe, Delay 300, Click 2,
         Delay 100, Click 3, Delay 100, Click 4, Delay 100,
         Pass ObserverScan 3, Disconnect, Counter 0, CycleStart,
         ScrollCommand, Delay 300, ScrollCommand, Delay 300, Observe,
         Disconnect, Pass PostWaitScan 0, Counter 1, CycleStart,
         Pass BottomCheck 0, Counter 2, ScrollCommand, Delay 300,
         Observe, Disconnect, Pass PostWaitScan 0, Counter 3,
         CycleStart, Pass BottomCheck 0, Counter 4, Disconnect]\<rparr>"

definition bottom_final :: state where
  "bottom_final =
     \<lparr>page = window_dom [] 0 800 800,
      scrollsWithoutNewHearts = 4, totalHeartsClicked = 0,
      processedHeartsInCycle = False, resolve_set = False,
      callbacks_pending = 0, timer_armed = False, stale_timers = 0,
      trace =
        [Pass InitialScan 0, CycleStart, Pass BottomCheck 0, Counter 1,
         ScrollCommand, Delay 300, Observe, Disconnect,
         Pass PostWaitScan 0, Counter 2, CycleStart,
         Pass BottomCheck 0, Counter 3, ScrollCommand, Delay 300,
         Observe, Disconnect, Pass PostWaitScan 0, Counter 4,
         Disconnect]\<rparr>"

text \<open>
  A window at the bottom with a single heart that the page never marks as filled: the state
  after the first scan, and the state at the head of the main loop two iterations later.
\<close>

definition stubborn_start :: state where
  "stubborn_start =
     \<lparr>page = window_dom [stubborn] 0 800 800,
      scrollsWithoutNewHearts = 0, totalHeartsClicked = 1,
      processedHeartsInCycle = False, resolve_set = False,
      callbacks_pending = 0, timer_armed = False, stale_timers = 0,
      trace = [Click 0, Delay 100, Pass InitialScan 1, Counter 0]\<rparr>"

definition stubborn_head :: state where
  "stubborn_head =
     \<lparr>page = window_dom [stubborn] 0 800 800,
      scrollsWithoutNewHearts = 0, totalHeartsClicked = 5,
      processedHeartsInCycle = False, resolve_set = False,
      callbacks_pending = 0, timer_armed = False, stale_timers = 0,
      trace =
        [Click 0, Delay 100, Pass InitialScan 1, Counter 0, CycleStart,
         Click 0, Delay 100, Pass BottomCheck 1, Counter 0, ScrollCommand,
         Delay 300, Observe, Disconnect, Click 0, Delay 100,
         Pass PostWaitScan 1, Counter 0, CycleStart, Click 0, Delay 100,
         Pass BottomCheck 1, Counter 0, ScrollCommand, Delay 300, Observe,
         Disconnect, Click 0, Delay 100, Pass PostWaitScan 1, Counter 0]\<rparr>"

text \<open>
  The state in which the run on \<open>late_host\<close> returns.
\<close>

definition late_final :: state where
  "late_final =
     \<lparr>page = window_dom [done_heart] 100 800 900,
      scrollsWithoutNewHearts = 4, totalHeartsClicked = 1,
      processedHeartsInCycle = False, resolve_set = False,
      callbacks_pending = 0, timer_armed = False, stale_timers = 0,
      trace =
        [Pass InitialScan 0, CycleStart, Pass BottomCheck 0, Counter 1,
         ScrollCommand, Delay 300, Observe, Delay 300,
         Pass ObserverScan 0, Disconnect, Pass PostWaitScan 0,
         Counter 2, CycleStart, ScrollCommand, Delay 300, Delay 300,
         Click 0, Delay 100, Pass ObserverScan 1, ScrollCommand,
         Delay 300, Observe, Disconnect, Pass PostWaitScan 0,
         Counter 3, CycleStart, Pass BottomCheck 0, Counter 4,
         Disconnect]\<rparr>"

text \<open>
  The state in which the run on \<open>straggler_host\<close> returns, and the state once the
  callback that was suspended at the return has run.
\<close>

definition straggler_final :: state where
  "straggler_final =
     \<lparr>page = window_dom [] 0 800 802,
      scrollsWithoutNewHearts = 4, totalHeartsClicked = 0,
      processedHeartsInCycle = False, resolve_set = False,
      callbacks_pending = 1, timer_armed = False, stale_timers = 0,
      trace =
        [Pass InitialScan 0, CycleStart, Pass BottomCheck 0, Counter 1,
         ScrollCommand, Delay 300, Observe, Disconnect,
         Pass PostWaitScan 0, Counter 2, CycleStart,
         Pass BottomCheck 0, Counter 3, ScrollCommand, Delay 300,
         Observe, Delay 300, Pass ObserverScan 0, Disconnect,
         Pass PostWaitScan 0, Counter 4, Disconnect]\<rparr>"

definition straggler_settled :: state where
  "straggler_settled =
     \<lparr>page = window_dom [done_heart] 0 800 802,
      scrollsWithoutNewHearts = 4, totalHeartsClicked = 1,
      processedHeartsInCycle = True, resolve_set = False,
      callbacks_pending = 0, timer_armed = False, stale_timers = 0,
      trace =
        [Pass InitialScan 0, CycleStart, Pass BottomCheck 0, Counter 1,
         ScrollCommand, Delay 300, Observe, Disconnect,
         Pass PostWaitScan 0, Counter 2, CycleStart,
         Pass BottomCheck 0, Counter 3, ScrollCommand, Delay 300,
         Observe, Delay 300, Pass ObserverScan 0, Disconnect,
         Pass PostWaitScan 0, Counter 4, Disconnect, Delay 300, Click 0,
         Delay 100, Pass ObserverScan 1]\<rparr>"

section \<open>One pass of processVisibleHearts\<close>

lemma target_update: "i \<noteq> j \<Longrightarrow> target (hs[i := h]) j = target hs j"
  by (simp add: target_def)

lemma returns_update: "i \<noteq> j \<Longrightarrow> returns (hs[i := h]) j = returns hs j"
  by (simp add: returns_def)

lemma target_events_update: "i \<noteq> j \<Longrightarrow> target_events (hs[i := h]) j = target_events hs j"
  by (simp add: target_events_def returns_update)

lemma filter_target_update:
  assumes "i \<notin> set rest"
  shows "filter (target (hs[i := h])) rest = filter (target hs) rest"
proof (rule filter_cong [OF refl])
  fix x assume "x \<in> set rest"
  with assms have "i \<noteq> x" by auto
  then show "target (hs[i := h]) x = target hs x" by (rule target_update)
qed

lemma filter_returns_update:
  assumes "i \<notin> set xs"
  shows "filter (returns (hs[i := h])) xs = filter (returns hs) xs"
proof (rule filter_cong [OF refl])
  fix x assume "x \<in> set xs"
  with assms have "i \<noteq> x" by auto
  then show "returns (hs[i := h]) x = returns hs x" by (rule returns_update)
qed

lemma map_target_events_update:
  assumes "i \<notin> set xs"
  shows "map (target_events (hs[i := h])) xs = map (target_events hs) xs"
proof (rule map_cong [OF refl])
  fix x assume "x \<in> set xs"
  with assms have "i \<noteq> x" by auto
  then show "target_events (hs[i := h]) x = target_events hs x" by (rule target_events_update)
qed

lemma visited_Nil: "visited [] k st = (k, st)"
  by (simp add: visited_def Let_def del: filter_filter)

lemma visit_hearts_closed:
  "distinct is \<Longrightarrow> visit_hearts is (k, st) = Inr (visited is k st)"
proof (induction "is" arbitrary: k st)
  case Nil
  then show ?case by (simp add: visited_Nil)
next
  case (Cons i rest)
  let ?hs = "hearts (page st)"
  from Cons.prems have nin: "i \<notin> set rest" and dist: "distinct rest" by simp_all
  have nin': "i \<notin> set (filter (target ?hs) rest)" using nin by simp
  show ?case
  proof (cases "target ?hs i")
    case False
    then have skip: "\<not> i < length ?hs \<or> \<not> visible (?hs ! i) \<or> filled (?hs ! i)"
      by (auto simp: target_def actionable_def)
    from False have same: "?hs[i := clicked_heart (?hs ! i)] = ?hs"
      by (cases "i < length ?hs") (simp_all add: clicked_heart_def target_def list_update_beyond)
    show ?thesis
      using skip False same Cons.IH [OF dist, of k st] by (simp add: visited_def Let_def del: filter_filter)
  next
    case True
    then have go: "\<not> (\<not> i < length ?hs \<or> \<not> visible (?hs ! i) \<or> filled (?hs ! i))"
      by (auto simp: target_def actionable_def)
    from True have act: "actionable (?hs ! i)" by (simp add: target_def)
    show ?thesis
    proof (cases "on_click (?hs ! i)")
      case Throws
      let ?st1 = "emit [ConsoleError (ClickFailed i)] st"
      have tc: "try_click i (k, st) = Inl (ClickFailed i)"
        using Throws by (simp add: try_click_def click_def)
      have r: "\<not> returns ?hs i" using Throws by (simp add: returns_def)
      have same: "?hs[i := clicked_heart (?hs ! i)] = ?hs"
        using Throws by (simp add: clicked_heart_def)
      show ?thesis
        using go tc r True same Cons.IH [OF dist, of k ?st1]
        by (simp add: visited_def Let_def emit_def target_events_def del: filter_filter)
    next
      case Ignores
      let ?st1 = "emit [Click i, Delay delayBetweenClicks]
                    (st\<lparr>page := page st, totalHeartsClicked := totalHeartsClicked st + 1\<rparr>)"
      have tc: "try_click i (k, st) = Inr (k + 1, ?st1)"
        using Ignores by (simp add: try_click_def click_def)
      have r: "returns ?hs i" using Ignores by (simp add: returns_def)
      have same: "?hs[i := clicked_heart (?hs ! i)] = ?hs"
        using Ignores by (simp add: clicked_heart_def)
      show ?thesis
        using go tc r True same Cons.IH [OF dist, of "k + 1" ?st1]
        by (simp add: visited_def Let_def emit_def target_events_def del: filter_filter)
    next
      case Fills
      let ?hs1 = "?hs[i := (?hs ! i)\<lparr>filled := True\<rparr>]"
      let ?st1 = "emit [Click i, Delay delayBetweenClicks]
                    (st\<lparr>page := (page st)\<lparr>hearts := ?hs1\<rparr>,
                        totalHeartsClicked := totalHeartsClicked st + 1\<rparr>)"
      have tc: "try_click i (k, st) = Inr (k + 1, ?st1)"
        using Fills by (simp add: try_click_def click_def)
      have r: "returns ?hs i" using Fills by (simp add: returns_def)
      have upd: "?hs[i := clicked_heart (?hs ! i)] = ?hs1"
        using act Fills by (simp add: clicked_heart_def)
      show ?thesis
        using go tc r True upd Cons.IH [OF dist, of "k + 1" ?st1]
        by (simp add: visited_def Let_def emit_def target_events_def
              filter_target_update [OF nin] filter_returns_update [OF nin']
              map_target_events_update [OF nin'] del: filter_filter)
    qed
  qed
qed

lemma length_apply_clicks: "length (apply_clicks is hs) = length hs"
  by (induction "is" arbitrary: hs) simp_all

lemma nth_apply_clicks:
  "distinct is \<Longrightarrow> j < length hs \<Longrightarrow>
   apply_clicks is hs ! j = (if j \<in> set is then clicked_heart (hs ! j) else hs ! j)"
proof (induction "is" arbitrary: hs)
  case Nil
  then show ?case by simp
next
  case (Cons i rest)
  from Cons.prems have nin: "i \<notin> set rest" and dist: "distinct rest" by simp_all
  from Cons.prems have j: "j < length (hs[i := clicked_heart (hs ! i)])" by simp
  show ?case
  proof (cases "j = i")
    case True
    with nin Cons.prems Cons.IH [OF dist j] show ?thesis by simp
  next
    case False
    with Cons.IH [OF dist j] show ?thesis by simp
  qed
qed

lemma target_unfilled: "target hs i \<Longrightarrow> \<not> filled (hs ! i)"
  by (simp add: target_def actionable_def)

lemma filter_target_snapshot:
  "filter (target hs) (filter (\<lambda>i. \<not> filled (hs ! i)) xs) = filter (target hs) xs"
  by (induction xs) (auto dest: target_unfilled)

lemma apply_clicks_snapshot:
  "apply_clicks (filter (\<lambda>i. \<not> filled (hs ! i)) [0..<length hs]) hs = map clicked_heart hs"
proof (rule nth_equalityI)
  show "length (apply_clicks (filter (\<lambda>i. \<not> filled (hs ! i)) [0..<length hs]) hs)
        = length (map clicked_heart hs)"
    by (simp add: length_apply_clicks)
next
  fix j
  assume "j < length (apply_clicks (filter (\<lambda>i. \<not> filled (hs ! i)) [0..<length hs]) hs)"
  then have j: "j < length hs" by (simp add: length_apply_clicks)
  have "filled (hs ! j) \<Longrightarrow> clicked_heart (hs ! j) = hs ! j"
    by (simp add: clicked_heart_def actionable_def)
  with j show "apply_clicks (filter (\<lambda>i. \<not> filled (hs ! i)) [0..<length hs]) hs ! j
               = map clicked_heart hs ! j"
    by (auto simp: nth_apply_clicks)
qed

lemma visited_snapshot:
  "visited (querySelectorAll_unfilled (page st)) 0 st
   = (pass_count (hearts (page st)), after_pass (hearts (page st)) st)"
  by (simp add: visited_def Let_def querySelectorAll_unfilled_def pass_count_def pass_events_def
        pass_targets_def after_pass_def filter_target_snapshot apply_clicks_snapshot
        del: filter_filter)

text \<open>
  The loop computes the closed form.
\<close>

lemma processVisibleHearts_closed:
  "processVisibleHearts st
   = Inr (pass_count (hearts (page st)), after_pass (hearts (page st)) st)"
proof (cases "querySelectorAll_unfilled (page st) = []")
  case True
  with visited_snapshot [of st] show ?thesis
    by (simp add: processVisibleHearts_def visited_Nil)
next
  case False
  have "distinct (querySelectorAll_unfilled (page st))"
    by (simp add: querySelectorAll_unfilled_def)
  from visit_hearts_closed [OF this, of 0 st] False show ?thesis
    by (simp add: processVisibleHearts_def Let_def visited_snapshot)
qed

lemma processVisibleHearts_nothing:
  "querySelectorAll_unfilled (page st) = [] \<Longrightarrow> processVisibleHearts st = Inr (0, st)"
  by (simp add: processVisibleHearts_def)

lemma set_pass_targets: "set (pass_targets hs) = {i. target hs i}"
  by (auto simp: pass_targets_def target_def)

lemma distinct_pass_targets: "distinct (pass_targets hs)"
  by (simp add: pass_targets_def)

lemma Click_in_target_events:
  "Click i \<in> set (target_events hs j) \<longleftrightarrow> j = i \<and> returns hs i"
  by (auto simp: target_events_def)

lemma ConsoleError_in_target_events:
  "ConsoleError (ClickFailed i) \<in> set (target_events hs j) \<longleftrightarrow> j = i \<and> \<not> returns hs i"
  by (auto simp: target_events_def)

lemma Click_in_pass_events:
  "Click i \<in> set (pass_events hs) \<longleftrightarrow> target hs i \<and> returns hs i"
  by (auto simp: pass_events_def set_pass_targets Click_in_target_events)

lemma ConsoleError_in_pass_events:
  "ConsoleError (ClickFailed i) \<in> set (pass_events hs) \<longleftrightarrow> target hs i \<and> \<not> returns hs i"
  by (auto simp: pass_events_def set_pass_targets ConsoleError_in_target_events)

lemma pass_count_all_throw:
  "\<forall>i<length hs. on_click (hs ! i) = Throws \<Longrightarrow> pass_count hs = 0"
  by (auto simp: pass_count_def pass_targets_def returns_def target_def filter_empty_conv)



lemma count_Click_target_events:
  "distinct xs \<Longrightarrow>
   count_list (concat (map (target_events hs) xs)) (Click i)
   = (if i \<in> set xs \<and> returns hs i then 1 else 0)"
  by (induction xs) (auto simp: target_events_def)

lemma count_Click_pass_events:
  "count_list (pass_events hs) (Click i) = (if target hs i \<and> returns hs i then 1 else 0)"
  by (simp add: pass_events_def count_Click_target_events distinct_pass_targets set_pass_targets)

lemma pass_count_pos: "target hs i \<Longrightarrow> returns hs i \<Longrightarrow> 0 < pass_count hs"
  by (auto simp: pass_count_def length_greater_0_conv filter_empty_conv set_pass_targets)

lemma pass_targets_conv:
  "map ((!) hs) (pass_targets hs) = filter actionable hs"
proof -
  have "filter actionable hs = filter actionable (map ((!) hs) [0..<length hs])"
    by (simp add: map_nth)
  also have "\<dots> = map ((!) hs) (filter (actionable \<circ> (!) hs) [0..<length hs])"
    by (simp add: filter_map)
  also have "filter (actionable \<circ> (!) hs) [0..<length hs] = pass_targets hs"
    unfolding pass_targets_def by (rule filter_cong [OF refl]) (simp add: target_def)
  finally show ?thesis by simp
qed

lemma pass_count_conv:
  "pass_count hs = length (filter (\<lambda>h. actionable h \<and> on_click h \<noteq> Throws) hs)"
proof -
  have "length (filter (returns hs) (pass_targets hs))
        = length (filter (\<lambda>h. on_click h \<noteq> Throws) (map ((!) hs) (pass_targets hs)))"
    by (simp add: filter_map returns_def [abs_def] comp_def)
  also have "\<dots> = length (filter (\<lambda>h. on_click h \<noteq> Throws) (filter actionable hs))"
    by (simp only: pass_targets_conv)
  finally show ?thesis by (simp add: pass_count_def conj_commute)
qed

lemma pass_count_append [simp]: "pass_count (xs @ ys) = pass_count xs + pass_count ys"
  by (simp add: pass_count_conv)

lemma pass_count_Nil [simp]: "pass_count [] = 0"
  by (simp add: pass_count_conv)

lemma clicks_append [simp]: "clicks (xs @ ys) = clicks xs + clicks ys"
  by (simp add: clicks_def)

lemma clicks_Nil [simp]: "clicks [] = 0"
  by (simp add: clicks_def)

lemma clicks_Cons [simp]: "clicks (e # es) = (if is_Click e then 1 else 0) + clicks es"
  by (simp add: clicks_def)

lemma clicks_scroll_events [simp]: "clicks (scroll_events n) = 0"
  by (induction n) (simp_all add: scroll_events_def)

lemma clicks_target_events:
  "clicks (concat (map (target_events hs) xs)) = length (filter (returns hs) xs)"
  by (induction xs) (simp_all add: target_events_def)

lemma clicks_pass_events [simp]: "clicks (pass_events hs) = pass_count hs"
  by (simp add: pass_events_def pass_count_def clicks_target_events)

lemma repeat_pass_counted:
  "totalHeartsClicked (repeat_pass n st) + clicks (trace st)
   = totalHeartsClicked st + clicks (trace (repeat_pass n st))"
proof (induction n arbitrary: st)
  case 0
  then show ?case by simp
next
  case (Suc n)
  from Suc.IH [of "after_pass (hearts (page st)) st"] show ?case
    by (simp add: processVisibleHearts_closed after_pass_def)
qed

lemma repeat_pass_stubborn:
  "i < length (hearts (page st)) \<Longrightarrow> visible (hearts (page st) ! i) \<Longrightarrow>
   \<not> filled (hearts (page st) ! i) \<Longrightarrow> on_click (hearts (page st) ! i) = Ignores \<Longrightarrow>
   count_list (trace (repeat_pass n st)) (Click i) = count_list (trace st) (Click i) + n
   \<and> totalHeartsClicked st + n \<le> totalHeartsClicked (repeat_pass n st)
   \<and> i < length (hearts (page (repeat_pass n st)))
   \<and> hearts (page (repeat_pass n st)) ! i = hearts (page st) ! i"
proof (induction n arbitrary: st)
  case 0
  then show ?case by simp
next
  case (Suc n)
  let ?hs = "hearts (page st)"
  let ?st1 = "after_pass ?hs st"
  have t: "target ?hs i" "returns ?hs i"
    using Suc.prems by (simp_all add: target_def actionable_def returns_def)
  have same: "hearts (page ?st1) ! i = ?hs ! i"
    using Suc.prems by (simp add: after_pass_def clicked_heart_def)
  have len: "i < length (hearts (page ?st1))"
    using Suc.prems by (simp add: after_pass_def)
  have ih: "count_list (trace (repeat_pass n ?st1)) (Click i) = count_list (trace ?st1) (Click i) + n
     \<and> totalHeartsClicked ?st1 + n \<le> totalHeartsClicked (repeat_pass n ?st1)
     \<and> i < length (hearts (page (repeat_pass n ?st1)))
     \<and> hearts (page (repeat_pass n ?st1)) ! i = hearts (page ?st1) ! i"
    using Suc.prems same len by (intro Suc.IH) simp_all
  have c1: "count_list (trace ?st1) (Click i) = count_list (trace st) (Click i) + 1"
    using t by (simp add: after_pass_def count_Click_pass_events)
  have c2: "totalHeartsClicked st + 1 \<le> totalHeartsClicked ?st1"
    using pass_count_pos [OF t] by (simp add: after_pass_def)
  have step: "repeat_pass (Suc n) st = repeat_pass n ?st1"
    by (simp add: processVisibleHearts_closed)
  from ih c1 c2 same show ?case unfolding step by simp
qed

lemmas example_defs = init_state_def window_dom_def broken_def fresh_def done_heart_def
  stubborn_def hidden_def

lemmas pass_defs = pass_count_def pass_events_def pass_targets_def target_def actionable_def
  returns_def target_events_def delayBetweenClicks_def

lemma clicked_fresh [simp]: "clicked_heart fresh = done_heart"
  by (simp add: clicked_heart_def actionable_def fresh_def done_heart_def)

lemma clicked_done [simp]: "clicked_heart done_heart = done_heart"
  by (simp add: clicked_heart_def actionable_def done_heart_def)

lemma pass_count_pages [simp]:
  "pass_count (replicate n fresh) = n"
  "pass_count (replicate n done_heart) = 0"
  by (simp_all add: pass_count_conv actionable_def fresh_def done_heart_def)

lemma unfilled_done [simp]:
  "querySelectorAll_unfilled (d\<lparr>hearts := replicate n done_heart\<rparr>) = []"
  by (simp add: querySelectorAll_unfilled_def done_heart_def filter_empty_conv)

subsection \<open>Nothing to do (C6)\<close>

text \<open>
  Claim C6.  On a document in which no element matches \<open>i.ud.ud-heart:not(.filled)\<close>,
  \<open>processVisibleHearts\<close> returns zero and leaves the whole run state as it was: no click,
  no change of a counter, no change of the document.  Running it again on the state it
  returns gives zero and the same state once more.
\<close>

theorem scan_without_unfilled_hearts_is_idle:
  "querySelectorAll_unfilled (page st) = [] \<Longrightarrow>
   processVisibleHearts st = Inr (0, st) \<and>
   (\<forall>k st1. processVisibleHearts st = Inr (k, st1) \<longrightarrow> processVisibleHearts st1 = Inr (0, st1))"
  by (simp add: processVisibleHearts_nothing)

theorem scan_without_unfilled_hearts_is_idle_witness:
  "querySelectorAll_unfilled (page (init_state (window_dom [done_heart, done_heart] 0 800 800))) = [] \<and>
   processVisibleHearts (init_state (window_dom [done_heart, done_heart] 0 800 800))
     = Inr (0, init_state (window_dom [done_heart, done_heart] 0 800 800))"
  using scan_without_unfilled_hearts_is_idle
          [of "init_state (window_dom [done_heart, done_heart] 0 800 800)"]
  by (simp add: querySelectorAll_unfilled_def init_state_def window_dom_def done_heart_def)

subsection \<open>A click that throws (C5)\<close>

text \<open>
  Claim C5.  \<open>processVisibleHearts\<close> never raises: its result is always a count and a
  state.  A \<open>click()\<close> that throws is caught and reported by \<open>console.error\<close>, and the loop
  goes on, so that every actionable heart whose \<open>click()\<close> returns is still clicked.  When
  \<open>click()\<close> throws on every heart, the count returned is zero.
\<close>

theorem processVisibleHearts_catches_click_errors:
  "\<exists>st1. processVisibleHearts st = Inr (pass_count (hearts (page st)), st1)
      \<and> trace st1 = trace st @ pass_events (hearts (page st))
      \<and> (\<forall>i. target (hearts (page st)) i \<and> \<not> returns (hearts (page st)) i
             \<longrightarrow> ConsoleError (ClickFailed i) \<in> set (pass_events (hearts (page st))))
      \<and> (\<forall>i. target (hearts (page st)) i \<and> returns (hearts (page st)) i
             \<longrightarrow> Click i \<in> set (pass_events (hearts (page st))))
      \<and> ((\<forall>i<length (hearts (page st)). on_click (hearts (page st) ! i) = Throws)
             \<longrightarrow> pass_count (hearts (page st)) = 0)"
  by (simp add: processVisibleHearts_closed after_pass_def Click_in_pass_events
        ConsoleError_in_pass_events pass_count_all_throw)

theorem processVisibleHearts_catches_click_errors_witness:
  "length (hearts (page (init_state (window_dom [broken, broken] 0 800 800)))) = 2
   \<and> on_click (hearts (page (init_state (window_dom [broken, broken] 0 800 800))) ! 0) = Throws
   \<and> on_click (hearts (page (init_state (window_dom [broken, broken] 0 800 800))) ! 1) = Throws
   \<and> (\<exists>st1. processVisibleHearts (init_state (window_dom [broken, broken] 0 800 800)) = Inr (0, st1)
         \<and> trace st1 = [ConsoleError (ClickFailed 0), ConsoleError (ClickFailed 1)])
   \<and> target (hearts (page (init_state (window_dom [broken, fresh] 0 800 800)))) 1
   \<and> returns (hearts (page (init_state (window_dom [broken, fresh] 0 800 800)))) 1
   \<and> (\<exists>st1. processVisibleHearts (init_state (window_dom [broken, fresh] 0 800 800)) = Inr (1, st1)
         \<and> trace st1 = [ConsoleError (ClickFailed 0), Click 1, Delay 100])"
proof -
  let ?a = "init_state (window_dom [broken, broken] 0 800 800)"
  let ?b = "init_state (window_dom [broken, fresh] 0 800 800)"
  have hyp: "\<forall>i<length (hearts (page ?a)). on_click (hearts (page ?a) ! i) = Throws"
    by (simp add: example_defs less_Suc_eq)
  have a: "pass_count (hearts (page ?a)) = 0"
          "trace ?a @ pass_events (hearts (page ?a))
           = [ConsoleError (ClickFailed 0), ConsoleError (ClickFailed 1)]"
    by (simp_all add: example_defs pass_defs)
  have b: "pass_count (hearts (page ?b)) = 1"
          "trace ?b @ pass_events (hearts (page ?b))
           = [ConsoleError (ClickFailed 0), Click 1, Delay 100]"
          "target (hearts (page ?b)) 1" "returns (hearts (page ?b)) 1"
    by (simp_all add: example_defs pass_defs)
  from processVisibleHearts_catches_click_errors [of ?a] a
  have ra: "\<exists>st1. processVisibleHearts ?a = Inr (0, st1)
         \<and> trace st1 = [ConsoleError (ClickFailed 0), ConsoleError (ClickFailed 1)]"
    by metis
  from processVisibleHearts_catches_click_errors [of ?b] b
  have rb: "\<exists>st1. processVisibleHearts ?b = Inr (1, st1)
         \<and> trace st1 = [ConsoleError (ClickFailed 0), Click 1, Delay 100]"
    by metis
  have hyp': "length (hearts (page ?a)) = 2" "on_click (hearts (page ?a) ! 0) = Throws"
             "on_click (hearts (page ?a) ! 1) = Throws"
    by (simp_all add: example_defs)
  from hyp' ra b(3,4) rb show ?thesis by blast
qed

subsection \<open>Which hearts are clicked (C9)\<close>




subsection \<open>No record of earlier clicks (C10)\<close>

text \<open>
  Claim C10.  The script keeps no record of the hearts it has clicked.  A heart that is
  visible, that is not filled and that the page does not mark as filled when clicked is
  clicked once more by every further pass: after \<open>n\<close> passes it has been clicked \<open>n\<close> times
  and has added at least \<open>n\<close> to \<open>totalHeartsClicked\<close>.  What \<open>totalHeartsClicked\<close> gains
  over the passes is the number of \<open>click()\<close> calls that returned, not the number of
  distinct hearts.
\<close>

theorem unfilled_heart_is_clicked_again_on_every_pass:
  "i < length (hearts (page st)) \<Longrightarrow> visible (hearts (page st) ! i) \<Longrightarrow>
   \<not> filled (hearts (page st) ! i) \<Longrightarrow> on_click (hearts (page st) ! i) = Ignores \<Longrightarrow>
   count_list (trace (repeat_pass n st)) (Click i) = count_list (trace st) (Click i) + n
   \<and> totalHeartsClicked st + n \<le> totalHeartsClicked (repeat_pass n st)
   \<and> totalHeartsClicked (repeat_pass n st) + clicks (trace st)
       = totalHeartsClicked st + clicks (trace (repeat_pass n st))"
  using repeat_pass_stubborn [of i st n] repeat_pass_counted [of n st] by simp

theorem unfilled_heart_is_clicked_again_on_every_pass_witness:
  "(0::nat) < length (hearts (page (init_state (window_dom [stubborn] 0 800 800))))
   \<and> visible (hearts (page (init_state (window_dom [stubborn] 0 800 800))) ! 0)
   \<and> \<not> filled (hearts (page (init_state (window_dom [stubborn] 0 800 800))) ! 0)
   \<and> on_click (hearts (page (init_state (window_dom [stubborn] 0 800 800))) ! 0) = Ignores
   \<and> count_list (trace (repeat_pass 3 (init_state (window_dom [stubborn] 0 800 800)))) (Click 0) = 3
   \<and> 3 \<le> totalHeartsClicked (repeat_pass 3 (init_state (window_dom [stubborn] 0 800 800)))
   \<and> totalHeartsClicked (repeat_pass 3 (init_state (window_dom [stubborn] 0 800 800)))
       = clicks (trace (repeat_pass 3 (init_state (window_dom [stubborn] 0 800 800))))
   \<and> length (hearts (page (repeat_pass 3 (init_state (window_dom [stubborn] 0 800 800))))) = 1"
proof -
  let ?st = "init_state (window_dom [stubborn] 0 800 800)"
  have h: "(0::nat) < length (hearts (page ?st))" "visible (hearts (page ?st) ! 0)"
          "\<not> filled (hearts (page ?st) ! 0)" "on_click (hearts (page ?st) ! 0) = Ignores"
    by (simp_all add: example_defs)
  have t: "count_list (trace ?st) (Click 0) = 0" "totalHeartsClicked ?st = 0"
          "clicks (trace ?st) = 0"
    by (simp_all add: example_defs)
  have l: "length (hearts (page (repeat_pass 3 ?st))) = 1" by code_simp
  from unfilled_heart_is_clicked_again_on_every_pass [OF h, of 3] t h l show ?thesis by simp
qed

section \<open>What happens while the main flow is suspended\<close>

lemma emit_sel [simp]:
  "page (emit es st) = page st"
  "scrollsWithoutNewHearts (emit es st) = scrollsWithoutNewHearts st"
  "totalHeartsClicked (emit es st) = totalHeartsClicked st"
  "processedHeartsInCycle (emit es st) = processedHeartsInCycle st"
  "resolve_set (emit es st) = resolve_set st"
  "callbacks_pending (emit es st) = callbacks_pending st"
  "timer_armed (emit es st) = timer_armed st"
  "stale_timers (emit es st) = stale_timers st"
  "trace (emit es st) = trace st @ es"
  by (simp_all add: emit_def)

lemma set_counter_sel [simp]:
  "page (set_counter v st) = page st"
  "scrollsWithoutNewHearts (set_counter v st) = v"
  "totalHeartsClicked (set_counter v st) = totalHeartsClicked st"
  "processedHeartsInCycle (set_counter v st) = processedHeartsInCycle st"
  "resolve_set (set_counter v st) = resolve_set st"
  "callbacks_pending (set_counter v st) = callbacks_pending st"
  "timer_armed (set_counter v st) = timer_armed st"
  "stale_timers (set_counter v st) = stale_timers st"
  "trace (set_counter v st) = trace st @ [Counter v]"
  by (simp_all add: set_counter_def)

lemma after_pass_sel [simp]:
  "page (after_pass hs st) = (page st)\<lparr>hearts := map clicked_heart hs\<rparr>"
  "scrollsWithoutNewHearts (after_pass hs st) = scrollsWithoutNewHearts st"
  "totalHeartsClicked (after_pass hs st) = totalHeartsClicked st + pass_count hs"
  "processedHeartsInCycle (after_pass hs st) = processedHeartsInCycle st"
  "resolve_set (after_pass hs st) = resolve_set st"
  "callbacks_pending (after_pass hs st) = callbacks_pending st"
  "timer_armed (after_pass hs st) = timer_armed st"
  "stale_timers (after_pass hs st) = stale_timers st"
  "trace (after_pass hs st) = trace st @ pass_events hs"
  by (simp_all add: after_pass_def)

text \<open>
  Whatever happens while the main flow is suspended adds to the trace only steps of the
  callback, and leaves the counter alone.
\<close>

lemma by_callback_pass_events: "list_all by_callback (pass_events hs)"
  by (auto simp: pass_events_def target_events_def list_all_iff)

lemma happen_trace:
  "\<exists>evs. trace (snd (happen observing e st)) = trace st @ evs \<and> list_all by_callback evs"
proof (cases e)
  case (Mutation f ms)
  then show ?thesis by (simp add: happen_def mutationCallback_begin_def Let_def)
next
  case CallbackResumes
  show ?thesis
  proof (cases "callbacks_pending st = 0")
    case True
    with CallbackResumes show ?thesis by (simp add: happen_def)
  next
    case False
    let ?hs = "hearts (page st)"
    from False CallbackResumes
    have "trace (snd (happen observing e st))
          = trace st @ ([Delay 300] @ pass_events ?hs @ [Pass ObserverScan (pass_count ?hs)])"
      by (simp add: happen_def mutationCallback_resume_def processVisibleHearts_closed Let_def)
    moreover have "list_all by_callback
                     ([Delay 300] @ pass_events ?hs @ [Pass ObserverScan (pass_count ?hs)])"
      by (simp add: by_callback_pass_events)
    ultimately show ?thesis by blast
  qed
next
  case TimerFires
  then show ?thesis by (simp add: happen_def timer_function_def)
qed

lemma happen_counter [simp]:
  "scrollsWithoutNewHearts (snd (happen observing e st)) = scrollsWithoutNewHearts st"
  by (cases e)
     (simp_all add: happen_def mutationCallback_begin_def mutationCallback_resume_def
        timer_function_def processVisibleHearts_closed Let_def)

lemma happen_counted:
  "counted st \<Longrightarrow> counted (snd (happen observing e st))"
  by (cases e)
     (simp_all add: happen_def mutationCallback_begin_def mutationCallback_resume_def
        timer_function_def processVisibleHearts_closed Let_def counted_def)

text \<open>
  Invariant rules for a wait and for a pause.
\<close>

lemma wait_events_invariant:
  assumes "wait_events es st = Some st1"
    and "P st"
    and "\<And>e s. P s \<Longrightarrow> P (snd (happen True e s))"
  shows "P st1"
  using assms(1,2)
proof (induction es arbitrary: st)
  case Nil
  obtain r s where h: "happen True (next_by_the_clock st) st = (r, s)"
    by (cases "happen True (next_by_the_clock st) st")
  from assms(3) [OF Nil.prems(2), of "next_by_the_clock st"] h have "P s" by simp
  with Nil.prems(1) h show ?case by (cases r) simp_all
next
  case (Cons e es)
  obtain r s where h: "happen True e st = (r, s)" by (cases "happen True e st")
  from assms(3) [OF Cons.prems(2), of e] h have s: "P s" by simp
  show ?case
  proof (cases r)
    case True
    with Cons.prems(1) h s show ?thesis by simp
  next
    case False
    with Cons.prems(1) h have "wait_events es s = Some st1" by simp
    from Cons.IH [OF this s] show ?thesis .
  qed
qed

lemma background_invariant:
  assumes "P st"
    and "\<And>e s. P s \<Longrightarrow> P (snd (happen False e s))"
  shows "P (background es st)"
  using assms(1)
proof (induction es arbitrary: st)
  case Nil
  then show ?case by simp
next
  case (Cons e es)
  from Cons.IH [OF assms(2) [OF Cons.prems]] show ?case by simp
qed

lemma background_trace:
  "\<exists>evs. trace (background es st) = trace st @ evs \<and> list_all by_callback evs"
proof (induction es arbitrary: st)
  case Nil
  then show ?case by simp
next
  case (Cons e es)
  obtain evs1 where 1: "trace (snd (happen False e st)) = trace st @ evs1"
    and 2: "list_all by_callback evs1"
    using happen_trace by blast
  from Cons.IH [of "snd (happen False e st)"] obtain evs2
    where 3: "trace (background (e # es) st) = trace (snd (happen False e st)) @ evs2"
      and 4: "list_all by_callback evs2"
    by auto
  from 1 3 have "trace (background (e # es) st) = trace st @ (evs1 @ evs2)" by simp
  moreover from 2 4 have "list_all by_callback (evs1 @ evs2)" by simp
  ultimately show ?case by blast
qed

lemma background_counter [simp]:
  "scrollsWithoutNewHearts (background es st) = scrollsWithoutNewHearts st"
  by (induction es arbitrary: st) simp_all

lemma wait_events_trace:
  assumes "wait_events es st = Some st1"
  shows "\<exists>evs. trace st1 = trace st @ evs \<and> list_all by_callback evs"
proof (rule wait_events_invariant [OF assms])
  show "\<exists>evs. trace st = trace st @ evs \<and> list_all by_callback evs" by simp
next
  fix e and s :: state
  assume "\<exists>evs. trace s = trace st @ evs \<and> list_all by_callback evs"
  then obtain evs1 where 1: "trace s = trace st @ evs1" and 2: "list_all by_callback evs1"
    by blast
  obtain evs2 where 3: "trace (snd (happen True e s)) = trace s @ evs2"
    and 4: "list_all by_callback evs2"
    using happen_trace by blast
  from 1 3 have "trace (snd (happen True e s)) = trace st @ (evs1 @ evs2)" by simp
  moreover from 2 4 have "list_all by_callback (evs1 @ evs2)" by simp
  ultimately show "\<exists>evs. trace (snd (happen True e s)) = trace st @ evs \<and> list_all by_callback evs"
    by blast
qed

lemma wait_events_counter:
  "wait_events es st = Some st1 \<Longrightarrow> scrollsWithoutNewHearts st1 = scrollsWithoutNewHearts st"
  by (erule wait_events_invariant) simp_all





section \<open>The aggressive scroll (C7)\<close>

lemma scroll_and_pause_trace:
  "\<exists>evs. trace (scroll_and_pause h iw st)
           = trace st @ [ScrollCommand, Delay aggressiveScrollPause] @ evs
         \<and> list_all by_callback evs"
proof -
  let ?st1 = "emit [ScrollCommand, Delay aggressiveScrollPause]
                (st\<lparr>page := scroll_response h iw (page st)\<rparr>)"
  from background_trace [of "pause_response h (page ?st1)" ?st1]
  show ?thesis by (simp add: scroll_and_pause_def Let_def)
qed

lemma scroll_and_pause_counter [simp]:
  "scrollsWithoutNewHearts (scroll_and_pause h iw st) = scrollsWithoutNewHearts st"
  by (simp add: scroll_and_pause_def Let_def)

lemma aggressive_scroll_step:
  assumes "a < maxAggressiveScrollAttemptsAtBottom"
  shows "aggressive_scroll (Suc fuel) h iw a mv st =
     (if cur_scrollTop iw (page (scroll_and_pause h iw st)) \<le> cur_scrollTop iw (page st) + 5
      then (if at_effective_bottom iw (page (scroll_and_pause h iw st))
            then Some (a + 1, mv, scroll_and_pause h iw st)
            else aggressive_scroll fuel h iw (a + 1) mv (scroll_and_pause h iw st))
      else aggressive_scroll fuel h iw 0 True (scroll_and_pause h iw st))"
  using assms by (auto simp: Let_def at_effective_bottom_def)

lemma aggressive_scroll_done:
  "\<not> a < maxAggressiveScrollAttemptsAtBottom \<Longrightarrow>
   aggressive_scroll (Suc fuel) h iw a mv st = Some (a, mv, st)"
  by simp

text \<open>
  An invariant rule for the loop.
\<close>

lemma aggressive_scroll_invariant:
  assumes "aggressive_scroll fuel h iw a mv st = Some (a1, mv1, st1)"
    and "P st"
    and "\<And>s. P s \<Longrightarrow> P (scroll_and_pause h iw s)"
  shows "P st1"
  using assms(1,2)
proof (induction fuel arbitrary: a mv st)
  case 0
  then show ?case by simp
next
  case (Suc fuel)
  let ?s = "scroll_and_pause h iw st"
  have s: "P ?s" by (rule assms(3) [OF Suc.prems(2)])
  show ?case
  proof (cases "a < maxAggressiveScrollAttemptsAtBottom")
    case False
    with Suc.prems show ?thesis by (simp add: aggressive_scroll_done del: aggressive_scroll.simps)
  next
    case True
    from Suc.prems(1) aggressive_scroll_step [OF True, of fuel h iw mv st]
    consider (brk) "st1 = ?s"
      | (rec) a2 mv2 where "aggressive_scroll fuel h iw a2 mv2 ?s = Some (a1, mv1, st1)"
      by (auto split: if_splits)
    then show ?thesis
    proof cases
      case brk
      with s show ?thesis by simp
    next
      case rec
      from Suc.IH [OF rec s] show ?thesis .
    qed
  qed
qed





text \<open>
  On \<open>endless_host\<close> the loop never leaves, whatever the fuel.
\<close>

lemma endless_scroll:
  "aggressive_scroll fuel endless_host True 0 mv st = None"
proof (induction fuel arbitrary: mv st)
  case 0
  then show ?case by simp
next
  case (Suc fuel)
  then show ?case
    by (simp add: Let_def endless_host_def scroll_and_pause_def cur_scrollTop_def
          cur_scrollHeight_def cur_clientHeight_def maxAggressiveScrollAttemptsAtBottom_def)
qed




section \<open>Invariants of the main loop\<close>

lemma grow_and_wait_SomeD:
  assumes "grow_and_wait fuel h iw st = Some r"
  obtains at mv sa sb where "aggressive_scroll fuel h iw 0 False st = Some (at, mv, sa)"
    and "wait_phase h sa = Some sb" and "r = post_wait sb"
  using assms by (auto simp: grow_and_wait_def split: option.splits prod.splits)

lemma wait_phase_SomeD:
  assumes "wait_phase h st = Some st1"
  obtains sa sb where
    "sa = (emit [Observe] (st\<lparr>processedHeartsInCycle := False\<rparr>))
            \<lparr>resolve_set := True,
             stale_timers := stale_timers st + (if timer_armed st then 1 else 0),
             timer_armed := True\<rparr>"
    and "wait_events (wait_response h (page st)) sa = Some sb"
    and "st1 = (emit [Disconnect] sb)\<lparr>resolve_set := False\<rparr>"
  using assms by (auto simp: wait_phase_def Let_def split: option.splits)

text \<open>
  The wait always ends.  While it lasts, the timer of the wait is armed or a call of the
  callback is suspended, and whichever comes first calls \<open>resolve\<close>.
\<close>

lemma happen_keeps_waiting:
  assumes "resolve_set st"
    and "timer_armed st \<or> 0 < stale_timers st \<or> 0 < callbacks_pending st"
    and "happen True e st = (False, s)"
  shows "resolve_set s \<and> (timer_armed s \<or> 0 < stale_timers s \<or> 0 < callbacks_pending s)"
proof (cases e)
  case (Mutation f ms)
  with assms show ?thesis
    by (auto simp: happen_def mutationCallback_begin_def Let_def split: if_splits)
next
  case CallbackResumes
  with assms show ?thesis
    by (auto simp: happen_def mutationCallback_resume_def processVisibleHearts_closed Let_def
          split: if_splits)
next
  case TimerFires
  with assms show ?thesis
    by (auto simp: happen_def timer_function_def split: if_splits)
qed

lemma wait_events_returns:
  "resolve_set st \<Longrightarrow>
   timer_armed st \<or> 0 < stale_timers st \<or> 0 < callbacks_pending st \<Longrightarrow>
   \<exists>st1. wait_events es st = Some st1"
proof (induction es arbitrary: st)
  case Nil
  then show ?case
    by (auto simp: next_by_the_clock_def happen_def timer_function_def
          mutationCallback_resume_def processVisibleHearts_closed Let_def)
next
  case (Cons e es)
  obtain r s where h: "happen True e st = (r, s)" by (cases "happen True e st")
  show ?case
  proof (cases r)
    case True
    with h show ?thesis by simp
  next
    case False
    with h have "happen True e st = (False, s)" by simp
    from happen_keeps_waiting [OF Cons.prems this] Cons.IH [of s] h False
    show ?thesis by simp
  qed
qed

lemma wait_phase_returns: "\<exists>st1. wait_phase h st = Some st1"
proof -
  let ?sa = "(emit [Observe] (st\<lparr>processedHeartsInCycle := False\<rparr>))
            \<lparr>resolve_set := True,
             stale_timers := stale_timers st + (if timer_armed st then 1 else 0),
             timer_armed := True\<rparr>"
  have "\<exists>sb. wait_events (wait_response h (page ?sa)) ?sa = Some sb"
    by (rule wait_events_returns) simp_all
  then show ?thesis by (auto simp: wait_phase_def Let_def)
qed

text \<open>An invariant rule for the main loop: \<open>I\<close> holds at the loop head, \<open>J\<close> where the
  aggressive scroll starts.\<close>

lemma cycle_invariant:
  assumes run: "cycle inner h st = Some (Inr r)"
    and init: "I st"
    and lt: "scrollsWithoutNewHearts st < maxScrollsWithoutNewHearts"
    and bottom: "\<And>s s2. I s \<Longrightarrow> scrollsWithoutNewHearts s < maxScrollsWithoutNewHearts \<Longrightarrow>
                   bottom_check (emit [CycleStart] s) = Inr s2 \<Longrightarrow>
                   (if maxScrollsWithoutNewHearts \<le> scrollsWithoutNewHearts s2 then I s2 else J s2)"
    and nobottom: "\<And>s. I s \<Longrightarrow> scrollsWithoutNewHearts s < maxScrollsWithoutNewHearts \<Longrightarrow>
                   J (emit [CycleStart] s)"
    and grow: "\<And>s iw s3. J s \<Longrightarrow> grow_and_wait inner h iw s = Some (Inr s3) \<Longrightarrow> I s3"
  shows "case r of Continue s \<Rightarrow> I s
         | Break s \<Rightarrow> I s \<and> maxScrollsWithoutNewHearts \<le> scrollsWithoutNewHearts s"
proof -
  let ?st0 = "emit [CycleStart] st"
  let ?iw = "grid (page ?st0) = None"
  show ?thesis
  proof (cases "canStillScroll ?iw (page ?st0)")
    case can: True
    from run can obtain st3 where
      g: "grow_and_wait inner h ?iw ?st0 = Some (Inr st3)" and r: "r = Continue st3"
      by (auto simp: cycle_def Let_def split: sum.splits option.splits)
    from grow [OF nobottom [OF init lt] g] r show ?thesis by simp
  next
    case cannot: False
    from run cannot obtain st2 where
      b: "bottom_check ?st0 = Inr st2"
      and rest: "(maxScrollsWithoutNewHearts \<le> scrollsWithoutNewHearts st2 \<and> r = Break st2)
               \<or> (\<not> maxScrollsWithoutNewHearts \<le> scrollsWithoutNewHearts st2
                   \<and> (\<exists>st3. grow_and_wait inner h ?iw st2 = Some (Inr st3) \<and> r = Continue st3))"
      by (auto simp: cycle_def Let_def split: sum.splits if_splits option.splits)
    note bb = bottom [OF init lt b]
    from rest show ?thesis
    proof
      assume "maxScrollsWithoutNewHearts \<le> scrollsWithoutNewHearts st2 \<and> r = Break st2"
      with bb show ?thesis by simp
    next
      assume a: "\<not> maxScrollsWithoutNewHearts \<le> scrollsWithoutNewHearts st2
                   \<and> (\<exists>st3. grow_and_wait inner h ?iw st2 = Some (Inr st3) \<and> r = Continue st3)"
      then obtain st3 where g: "grow_and_wait inner h ?iw st2 = Some (Inr st3)"
        and r: "r = Continue st3" by blast
      from bb a have "J st2" by simp
      from grow [OF this g] r show ?thesis by simp
    qed
  qed
qed

lemma main_loop_invariant:
  assumes run: "main_loop inner fuel h st = Some (Inr st1)"
    and init: "I st"
    and bottom: "\<And>s s2. I s \<Longrightarrow> scrollsWithoutNewHearts s < maxScrollsWithoutNewHearts \<Longrightarrow>
                   bottom_check (emit [CycleStart] s) = Inr s2 \<Longrightarrow>
                   (if maxScrollsWithoutNewHearts \<le> scrollsWithoutNewHearts s2 then I s2 else J s2)"
    and nobottom: "\<And>s. I s \<Longrightarrow> scrollsWithoutNewHearts s < maxScrollsWithoutNewHearts \<Longrightarrow>
                   J (emit [CycleStart] s)"
    and grow: "\<And>s iw s3. J s \<Longrightarrow> grow_and_wait inner h iw s = Some (Inr s3) \<Longrightarrow> I s3"
  shows "I st1"
  using run init
proof (induction fuel arbitrary: st)
  case 0
  then show ?case by simp
next
  case (Suc fuel)
  show ?case
  proof (cases "scrollsWithoutNewHearts st < maxScrollsWithoutNewHearts")
    case False
    with Suc.prems show ?thesis by simp
  next
    case True
    from Suc.prems(1) True obtain r where c: "cycle inner h st = Some (Inr r)"
      and rest: "r = Break st1
                 \<or> (\<exists>st3. r = Continue st3 \<and> main_loop inner fuel h st3 = Some (Inr st1))"
      by (auto split: option.splits sum.splits step.splits)
    note ci = cycle_invariant [where I = I and J = J, OF c Suc.prems(2) True bottom nobottom grow]
    from rest show ?thesis
    proof
      assume "r = Break st1"
      with ci show ?thesis by simp
    next
      assume "\<exists>st3. r = Continue st3 \<and> main_loop inner fuel h st3 = Some (Inr st1)"
      then obtain st3 where r: "r = Continue st3"
        and m: "main_loop inner fuel h st3 = Some (Inr st1)" by blast
      from ci r have "I st3" by simp
      from Suc.IH [OF m this] show ?thesis .
    qed
  qed
qed

lemma head_after_invariant:
  assumes run: "head_after inner k h st = Some st1"
    and init: "I st"
    and bottom: "\<And>s s2. I s \<Longrightarrow> scrollsWithoutNewHearts s < maxScrollsWithoutNewHearts \<Longrightarrow>
                   bottom_check (emit [CycleStart] s) = Inr s2 \<Longrightarrow>
                   (if maxScrollsWithoutNewHearts \<le> scrollsWithoutNewHearts s2 then I s2 else J s2)"
    and nobottom: "\<And>s. I s \<Longrightarrow> scrollsWithoutNewHearts s < maxScrollsWithoutNewHearts \<Longrightarrow>
                   J (emit [CycleStart] s)"
    and grow: "\<And>s iw s3. J s \<Longrightarrow> grow_and_wait inner h iw s = Some (Inr s3) \<Longrightarrow> I s3"
  shows "I st1"
  using run init
proof (induction k arbitrary: st)
  case 0
  then show ?case by simp
next
  case (Suc k)
  from Suc.prems(1) have lt: "scrollsWithoutNewHearts st < maxScrollsWithoutNewHearts"
    by (simp split: if_splits)
  from Suc.prems(1) lt obtain st3 where c: "cycle inner h st = Some (Inr (Continue st3))"
    and m: "head_after inner k h st3 = Some st1"
    by (auto split: option.splits sum.splits step.splits)
  from cycle_invariant [where I = I and J = J, OF c Suc.prems(2) lt bottom nobottom grow]
  have "I st3" by simp
  from Suc.IH [OF m this] show ?case .
qed

lemma clickAllHearts_SomeD:
  assumes "clickAllHearts fuel h d = Some (Inr (s, st))"
  obtains st1 st2 where "initial_scan (init_state d) = Inr st1"
    and "main_loop fuel fuel h st1 = Some (Inr st2)"
    and "st = emit [Disconnect] st2"
    and "s = ''Total hearts clicked: '' @ show_nat (totalHeartsClicked st)"
  using assms
  by (auto simp: clickAllHearts_def Let_def split: sum.splits option.splits)

lemma cycle_Break:
  "cycle inner h st = Some (Inr (Break s)) \<Longrightarrow>
   maxScrollsWithoutNewHearts \<le> scrollsWithoutNewHearts s"
  by (auto simp: cycle_def Let_def split: if_splits sum.splits option.splits)

lemma main_loop_exit:
  "main_loop inner fuel h st = Some (Inr st1) \<Longrightarrow>
   maxScrollsWithoutNewHearts \<le> scrollsWithoutNewHearts st1"
proof (induction fuel arbitrary: st)
  case 0
  then show ?case by simp
next
  case (Suc fuel)
  then show ?case
    by (auto split: if_splits sum.splits option.splits step.splits dest: cycle_Break)
qed

text \<open>No exception leaves \<open>clickAllHearts\<close>.\<close>

lemma cycle_never_raises: "cycle inner h st \<noteq> Some (Inl e)"
  by (auto simp: cycle_def grow_and_wait_def bottom_check_def post_wait_def
        processVisibleHearts_closed Let_def split: option.splits prod.splits)

lemma main_loop_never_raises: "main_loop inner fuel h st \<noteq> Some (Inl e)"
proof (induction fuel arbitrary: st)
  case 0
  then show ?case by simp
next
  case (Suc fuel)
  then show ?case
    using cycle_never_raises [of inner h st]
    by (auto split: option.splits sum.splits step.splits)
qed

lemma clickAllHearts_never_raises: "clickAllHearts fuel h d \<noteq> Some (Inl e)"
  using main_loop_never_raises [of fuel fuel h]
  by (auto simp: clickAllHearts_def initial_scan_def processVisibleHearts_closed Let_def
        split: option.splits sum.splits)

text \<open>
  Two runs, evaluated: one that returns and one that never does.
\<close>

lemma two_page_run:
  "clickAllHearts 4 (two_page_host 3 True) (two_page_dom 2)
   = Some (Inr (''Total hearts clicked: 5'', two_page_final))"
  by code_simp

lemma stubborn_heads:
  "initial_scan (init_state (window_dom [stubborn] 0 800 800)) = Inr stubborn_start"
  "head_after 4 2 static_host stubborn_start = Some stubborn_head"
  by code_simp+

subsection \<open>The value returned (C3)\<close>

lemma counted_initial_scan:
  "counted st \<Longrightarrow> initial_scan st = Inr st1 \<Longrightarrow> counted st1"
  by (auto simp: initial_scan_def processVisibleHearts_closed counted_def Let_def)

lemma counted_bottom_check:
  "counted st \<Longrightarrow> bottom_check st = Inr st1 \<Longrightarrow> counted st1"
  by (auto simp: bottom_check_def processVisibleHearts_closed counted_def Let_def)

lemma counted_post_wait:
  "counted st \<Longrightarrow> post_wait st = Inr st1 \<Longrightarrow> counted st1"
  by (auto simp: post_wait_def processVisibleHearts_closed counted_def Let_def split: if_splits)

lemma counted_wait_phase:
  assumes c: "counted st" and w: "wait_phase h st = Some st1"
  shows "counted st1"
proof -
  from w obtain sa sb where
    sa: "sa = (emit [Observe] (st\<lparr>processedHeartsInCycle := False\<rparr>))
            \<lparr>resolve_set := True,
             stale_timers := stale_timers st + (if timer_armed st then 1 else 0),
             timer_armed := True\<rparr>"
    and ev: "wait_events (wait_response h (page st)) sa = Some sb"
    and st1: "st1 = (emit [Disconnect] sb)\<lparr>resolve_set := False\<rparr>"
    by (rule wait_phase_SomeD)
  from c sa have "counted sa" by (simp add: counted_def)
  from wait_events_invariant [where P = counted, OF ev this happen_counted]
  have "counted sb" .
  with st1 show ?thesis by (simp add: counted_def)
qed

lemma counted_scroll_and_pause:
  "counted st \<Longrightarrow> counted (scroll_and_pause h iw st)"
  unfolding scroll_and_pause_def Let_def
  by (rule background_invariant [where P = counted, OF _ happen_counted])
     (simp add: counted_def)

lemma counted_aggressive_scroll:
  "counted st \<Longrightarrow> aggressive_scroll fuel h iw a mv st = Some (a1, mv1, st1) \<Longrightarrow> counted st1"
  by (erule aggressive_scroll_invariant [where P = counted, rotated]) (rule counted_scroll_and_pause)

lemma counted_grow_and_wait:
  assumes c: "counted st" and g: "grow_and_wait fuel h iw st = Some (Inr st1)"
  shows "counted st1"
proof -
  from g obtain at mv sa sb where a: "aggressive_scroll fuel h iw 0 False st = Some (at, mv, sa)"
    and w: "wait_phase h sa = Some sb" and p: "Inr st1 = post_wait sb"
    by (rule grow_and_wait_SomeD)
  from counted_post_wait [OF counted_wait_phase [OF counted_aggressive_scroll [OF c a] w] p [symmetric]]
  show ?thesis .
qed

lemma counted_main_loop:
  assumes "counted st" and "main_loop inner fuel h st = Some (Inr st1)"
  shows "counted st1"
proof (rule main_loop_invariant [where I = counted and J = counted, OF assms(2) assms(1)])
  fix s s2
  assume c: "counted s" and b: "bottom_check (emit [CycleStart] s) = Inr s2"
  from c have "counted (emit [CycleStart] s)" by (simp add: counted_def)
  from counted_bottom_check [OF this b] have "counted s2" .
  then show "if maxScrollsWithoutNewHearts \<le> scrollsWithoutNewHearts s2 then counted s2 else counted s2"
    by simp
next
  fix s assume "counted s"
  then show "counted (emit [CycleStart] s)" by (simp add: counted_def)
next
  fix s iw s3
  assume "counted s" and "grow_and_wait inner h iw s = Some (Inr s3)"
  then show "counted s3" by (rule counted_grow_and_wait)
qed

text \<open>
  When \<open>clickAllHearts\<close> returns, the value it returns is the text \<open>Total hearts clicked:\<close>
  followed by \<open>totalHeartsClicked\<close> in decimal, and that number is the number of \<open>click()\<close>
  calls that have returned normally up to that moment, by the passes of the main flow and
  by those of the callback.
\<close>

lemma returned_value_counts_clicks_so_far:
  assumes "clickAllHearts fuel h d = Some (Inr (s, st))"
  shows "s = ''Total hearts clicked: '' @ show_nat (clicks (trace st))
         \<and> totalHeartsClicked st = clicks (trace st)"
proof -
  from assms obtain st1 st2 where i: "initial_scan (init_state d) = Inr st1"
    and m: "main_loop fuel fuel h st1 = Some (Inr st2)"
    and e: "st = emit [Disconnect] st2"
    and s: "s = ''Total hearts clicked: '' @ show_nat (totalHeartsClicked st)"
    by (rule clickAllHearts_SomeD)
  have "counted (init_state d)" by (simp add: counted_def init_state_def)
  from counted_main_loop [OF counted_initial_scan [OF this i] m] e
  have "totalHeartsClicked st = clicks (trace st)" by (simp add: counted_def)
  with s show ?thesis by simp
qed

text \<open>
  The clicks of a callback that is still suspended at the return are counted in
  \<open>totalHeartsClicked\<close> when they happen, after the value has been returned.
\<close>

lemma afterwards_counted:
  "counted st \<Longrightarrow> counted (afterwards h st)"
  unfolding afterwards_def Let_def
  by (intro background_invariant [where P = counted] happen_counted)

text \<open>
  When no call of the callback is suspended at the return, nothing is clicked afterwards,
  and the value returned is the number of successful clicks of the whole run.
\<close>

lemma happen_nothing_suspended:
  "callbacks_pending st = 0 \<Longrightarrow>
   callbacks_pending (snd (happen False e st)) = 0 \<and> trace (snd (happen False e st)) = trace st"
  by (cases e) (simp_all add: happen_def timer_function_def Let_def)

lemma background_nothing_suspended:
  "callbacks_pending st = 0 \<Longrightarrow>
   callbacks_pending (background es st) = 0 \<and> trace (background es st) = trace st"
proof (induction es arbitrary: st)
  case Nil
  then show ?case by simp
next
  case (Cons e es)
  from happen_nothing_suspended [OF Cons.prems, of e] Cons.IH [of "snd (happen False e st)"]
  show ?case by simp
qed

lemma nothing_suspended_nothing_missed:
  assumes "clickAllHearts fuel h d = Some (Inr (s, st))" and "callbacks_pending st = 0"
  shows "s = ''Total hearts clicked: '' @ show_nat (clicks (trace (afterwards h st)))"
proof -
  from background_nothing_suspended [OF assms(2), of "final_response h (page st)"]
  have "trace (afterwards h st) = trace st"
    by (simp add: afterwards_def Let_def)
  with returned_value_counts_clicks_so_far [OF assms(1)] show ?thesis by simp
qed

text \<open>
  Claim C3 says that \<open>clickAllHearts\<close> returns the number of successful clicks of the whole
  run.  Nothing awaits the callback of the observer, so \<open>clickAllHearts\<close> can return while
  a call of the callback is suspended at line 99, and the clicks of that call come after
  the value has been computed.  On \<open>straggler_host\<close> the value returned is
  \<open>Total hearts clicked: 0\<close>; one call of the callback is suspended at that moment, and
  when it has run its pass, one heart has been clicked and \<open>totalHeartsClicked\<close> is 1.
\<close>

theorem callback_after_return_is_not_counted:
  "clickAllHearts 4 straggler_host (window_dom [] 0 800 800)
     = Some (Inr (''Total hearts clicked: 0'', straggler_final))
   \<and> callbacks_pending straggler_final = 1
   \<and> afterwards straggler_host straggler_final = straggler_settled
   \<and> clicks (trace straggler_settled) = 1
   \<and> totalHeartsClicked straggler_settled = 1"
  by code_simp

subsection \<open>The observer (C8)\<close>

lemma observer_run_append:
  "observer_run a (xs @ ys) = (case observer_run a xs of None \<Rightarrow> None | Some b \<Rightarrow> observer_run b ys)"
  by (induction a xs rule: observer_run.induct) simp_all

lemma observer_run_target_events [simp]:
  "observer_run a (concat (map (target_events hs) xs)) = Some a"
  by (induction xs) (simp_all add: target_events_def)

lemma observer_run_pass_events [simp]: "observer_run a (pass_events hs) = Some a"
  by (simp add: pass_events_def)

lemma observer_run_scroll_events [simp]: "observer_run a (scroll_events n) = Some a"
  by (induction n) (simp_all add: scroll_events_def)

lemma observer_run_by_callback: "list_all by_callback evs \<Longrightarrow> observer_run a evs = Some a"
  by (induction a evs rule: observer_run.induct) simp_all

lemma observer_run_happen:
  assumes "observer_run a (trace st) = Some b"
  shows "observer_run a (trace (snd (happen observing e st))) = Some b"
proof -
  from happen_trace [of observing e st] obtain evs
    where "trace (snd (happen observing e st)) = trace st @ evs" and "list_all by_callback evs"
    by blast
  with assms show ?thesis by (simp add: observer_run_append observer_run_by_callback)
qed

lemma idle_initial_scan:
  "observer_idle st \<Longrightarrow> initial_scan st = Inr st1 \<Longrightarrow> observer_idle st1"
  by (auto simp: initial_scan_def processVisibleHearts_closed observer_idle_def Let_def
        observer_run_append)

lemma idle_bottom_check:
  "observer_idle st \<Longrightarrow> bottom_check st = Inr st1 \<Longrightarrow> observer_idle st1"
  by (auto simp: bottom_check_def processVisibleHearts_closed observer_idle_def Let_def
        observer_run_append)

lemma idle_post_wait:
  "observer_idle st \<Longrightarrow> post_wait st = Inr st1 \<Longrightarrow> observer_idle st1"
  by (auto simp: post_wait_def processVisibleHearts_closed observer_idle_def Let_def
        observer_run_append split: if_splits)

text \<open>
  During the wait one subscription is outstanding, whatever the page, the timers and the
  callbacks do; it is gone when the wait is over.
\<close>

lemma idle_wait_phase:
  assumes c: "observer_idle st" and w: "wait_phase h st = Some st1"
  shows "observer_idle st1"
proof -
  from w obtain sa sb where
    sa: "sa = (emit [Observe] (st\<lparr>processedHeartsInCycle := False\<rparr>))
            \<lparr>resolve_set := True,
             stale_timers := stale_timers st + (if timer_armed st then 1 else 0),
             timer_armed := True\<rparr>"
    and ev: "wait_events (wait_response h (page st)) sa = Some sb"
    and st1: "st1 = (emit [Disconnect] sb)\<lparr>resolve_set := False\<rparr>"
    by (rule wait_phase_SomeD)
  from c sa have "observer_run False (trace sa) = Some True"
    by (simp add: observer_idle_def observer_run_append)
  from wait_events_invariant
         [where P = "\<lambda>s. observer_run False (trace s) = Some True", OF ev this observer_run_happen]
  have "observer_run False (trace sb) = Some True" .
  with st1 show ?thesis by (simp add: observer_idle_def observer_run_append)
qed

lemma idle_scroll_and_pause:
  assumes "observer_idle st"
  shows "observer_idle (scroll_and_pause h iw st)"
proof -
  from scroll_and_pause_trace [of h iw st] obtain evs where
    "trace (scroll_and_pause h iw st) = trace st @ [ScrollCommand, Delay aggressiveScrollPause] @ evs"
    and "list_all by_callback evs"
    by blast
  with assms show ?thesis
    by (simp add: observer_idle_def observer_run_append observer_run_by_callback)
qed

lemma idle_aggressive_scroll:
  "observer_idle st \<Longrightarrow> aggressive_scroll fuel h iw a mv st = Some (a1, mv1, st1) \<Longrightarrow> observer_idle st1"
  by (erule aggressive_scroll_invariant [where P = observer_idle, rotated])
     (rule idle_scroll_and_pause)

lemma idle_grow_and_wait:
  assumes c: "observer_idle st" and g: "grow_and_wait fuel h iw st = Some (Inr st1)"
  shows "observer_idle st1"
proof -
  from g obtain at mv sa sb where a: "aggressive_scroll fuel h iw 0 False st = Some (at, mv, sa)"
    and w: "wait_phase h sa = Some sb" and p: "Inr st1 = post_wait sb"
    by (rule grow_and_wait_SomeD)
  from idle_post_wait [OF idle_wait_phase [OF idle_aggressive_scroll [OF c a] w] p [symmetric]]
  show ?thesis .
qed

lemma idle_CycleStart: "observer_idle s \<Longrightarrow> observer_idle (emit [CycleStart] s)"
  by (simp add: observer_idle_def observer_run_append)

lemma idle_main_loop:
  assumes "observer_idle st" and "main_loop inner fuel h st = Some (Inr st1)"
  shows "observer_idle st1"
proof (rule main_loop_invariant [where I = observer_idle and J = observer_idle, OF assms(2) assms(1)])
  fix s s2
  assume c: "observer_idle s" and b: "bottom_check (emit [CycleStart] s) = Inr s2"
  from idle_bottom_check [OF idle_CycleStart [OF c] b] have "observer_idle s2" .
  then show "if maxScrollsWithoutNewHearts \<le> scrollsWithoutNewHearts s2
             then observer_idle s2 else observer_idle s2"
    by simp
next
  fix s assume "observer_idle s"
  then show "observer_idle (emit [CycleStart] s)" by (rule idle_CycleStart)
next
  fix s iw s3
  assume "observer_idle s" and "grow_and_wait inner h iw s = Some (Inr s3)"
  then show "observer_idle s3" by (rule idle_grow_and_wait)
qed

lemma idle_head_after:
  assumes "observer_idle st" and "head_after inner k h st = Some st1"
  shows "observer_idle st1"
proof (rule head_after_invariant [where I = observer_idle and J = observer_idle, OF assms(2) assms(1)])
  fix s s2
  assume c: "observer_idle s" and b: "bottom_check (emit [CycleStart] s) = Inr s2"
  from idle_bottom_check [OF idle_CycleStart [OF c] b] have "observer_idle s2" .
  then show "if maxScrollsWithoutNewHearts \<le> scrollsWithoutNewHearts s2
             then observer_idle s2 else observer_idle s2"
    by simp
next
  fix s assume "observer_idle s"
  then show "observer_idle (emit [CycleStart] s)" by (rule idle_CycleStart)
next
  fix s iw s3
  assume "observer_idle s" and "grow_and_wait inner h iw s = Some (Inr s3)"
  then show "observer_idle s3" by (rule idle_grow_and_wait)
qed

text \<open>
  Claim C8.  In every run that returns, \<open>observe\<close> is never called while a subscription
  is outstanding, no iteration of the main loop starts with one outstanding, none is
  outstanding at the end, and the last step of the run is a \<open>disconnect\<close>.  The same
  holds, as far as the run has got, at the head of the main loop after any number of
  iterations of any run, whether it returns or not.  The callback never calls \<open>observe\<close>
  or \<open>disconnect\<close>, so this holds however many batches the page delivers and whenever the
  calls of the callback and the timers run.
\<close>

theorem observer_is_never_leaked:
  "(clickAllHearts fuel h d = Some (Inr (s, st))
      \<longrightarrow> observer_run False (trace st) = Some False \<and> last (trace st) = Disconnect)
   \<and> (initial_scan (init_state d) = Inr st0 \<and> head_after inner k h st0 = Some st1
      \<longrightarrow> observer_run False (trace st1) = Some False)"
proof (intro conjI impI)
  assume r: "clickAllHearts fuel h d = Some (Inr (s, st))"
  from r obtain sa sb where i: "initial_scan (init_state d) = Inr sa"
    and m: "main_loop fuel fuel h sa = Some (Inr sb)"
    and e: "st = emit [Disconnect] sb"
    by (rule clickAllHearts_SomeD)
  have "observer_idle (init_state d)" by (simp add: observer_idle_def init_state_def)
  from idle_main_loop [OF idle_initial_scan [OF this i] m] e
  show "observer_run False (trace st) = Some False" "last (trace st) = Disconnect"
    by (simp_all add: observer_idle_def observer_run_append)
next
  assume a: "initial_scan (init_state d) = Inr st0 \<and> head_after inner k h st0 = Some st1"
  have "observer_idle (init_state d)" by (simp add: observer_idle_def init_state_def)
  from idle_head_after [OF idle_initial_scan [OF this conjunct1 [OF a]] conjunct2 [OF a]]
  show "observer_run False (trace st1) = Some False" by (simp add: observer_idle_def)
qed

theorem observer_is_never_leaked_witness:
  "clickAllHearts 4 (two_page_host 3 True) (two_page_dom 2)
     = Some (Inr (''Total hearts clicked: 5'', two_page_final))
   \<and> observer_run False (trace two_page_final) = Some False
   \<and> last (trace two_page_final) = Disconnect
   \<and> initial_scan (init_state (window_dom [stubborn] 0 800 800)) = Inr stubborn_start
   \<and> head_after 4 2 static_host stubborn_start = Some stubborn_head
   \<and> observer_run False (trace stubborn_head) = Some False"
  using observer_is_never_leaked
          [of 4 "two_page_host 3 True" "two_page_dom 2" "''Total hearts clicked: 5''"
              two_page_final stubborn_start 4 2 stubborn_head]
        observer_is_never_leaked
          [of 4 static_host "window_dom [stubborn] 0 800 800" "''Total hearts clicked: 5''"
              two_page_final stubborn_start 4 2 stubborn_head]
        two_page_run stubborn_heads
  by simp

subsection \<open>The counter (C2)\<close>

lemma within_threshold_by_callback:
  "list_all by_callback evs \<Longrightarrow> list_all within_threshold evs"
proof (induction evs)
  case Nil
  then show ?case by simp
next
  case (Cons e evs)
  then show ?case by (cases e) simp_all
qed

lemma within_threshold_pass_events [simp]: "list_all within_threshold (pass_events hs)"
  by (rule within_threshold_by_callback) (rule by_callback_pass_events)

lemma head_happen:
  assumes "at_head st"
  shows "at_head (snd (happen observing e st))"
proof -
  from happen_trace [of observing e st] obtain evs
    where "trace (snd (happen observing e st)) = trace st @ evs" and "list_all by_callback evs"
    by blast
  with assms show ?thesis by (simp add: at_head_def within_threshold_by_callback)
qed

lemma grow_happen:
  "at_grow st \<Longrightarrow> at_grow (snd (happen observing e st))"
  by (simp add: at_grow_def head_happen)

lemma head_initial_scan:
  "at_head st \<Longrightarrow> initial_scan st = Inr st1 \<Longrightarrow> at_head st1"
  by (auto simp: initial_scan_def processVisibleHearts_closed at_head_def Let_def)

lemma head_bottom_check:
  "at_grow st \<Longrightarrow> bottom_check st = Inr st1 \<Longrightarrow>
   (if maxScrollsWithoutNewHearts \<le> scrollsWithoutNewHearts st1 then at_head st1 else at_grow st1)"
  by (cases "0 < pass_count (hearts (page st))"; cases "processedHeartsInCycle st")
     (auto simp: bottom_check_def processVisibleHearts_closed at_head_def at_grow_def
        Let_def maxScrollsWithoutNewHearts_def)

lemma head_post_wait:
  "at_grow st \<Longrightarrow> post_wait st = Inr st1 \<Longrightarrow> at_head st1"
  by (auto simp: post_wait_def processVisibleHearts_closed at_head_def at_grow_def
        Let_def maxScrollsWithoutNewHearts_def split: if_splits)

lemma grow_wait_phase:
  assumes c: "at_grow st" and w: "wait_phase h st = Some st1"
  shows "at_grow st1"
proof -
  from w obtain sa sb where
    sa: "sa = (emit [Observe] (st\<lparr>processedHeartsInCycle := False\<rparr>))
            \<lparr>resolve_set := True,
             stale_timers := stale_timers st + (if timer_armed st then 1 else 0),
             timer_armed := True\<rparr>"
    and ev: "wait_events (wait_response h (page st)) sa = Some sb"
    and st1: "st1 = (emit [Disconnect] sb)\<lparr>resolve_set := False\<rparr>"
    by (rule wait_phase_SomeD)
  from c sa have "at_grow sa" by (simp add: at_grow_def at_head_def)
  from wait_events_invariant [where P = at_grow, OF ev this grow_happen]
  have "at_grow sb" .
  with st1 show ?thesis by (simp add: at_grow_def at_head_def)
qed

lemma grow_scroll_and_pause:
  assumes "at_grow st"
  shows "at_grow (scroll_and_pause h iw st)"
proof -
  from scroll_and_pause_trace [of h iw st] obtain evs where
    "trace (scroll_and_pause h iw st) = trace st @ [ScrollCommand, Delay aggressiveScrollPause] @ evs"
    and "list_all by_callback evs"
    by blast
  with assms show ?thesis
    by (simp add: at_grow_def at_head_def within_threshold_by_callback)
qed

lemma grow_aggressive_scroll:
  "at_grow st \<Longrightarrow> aggressive_scroll fuel h iw a mv st = Some (a1, mv1, st1) \<Longrightarrow> at_grow st1"
  by (erule aggressive_scroll_invariant [where P = at_grow, rotated])
     (rule grow_scroll_and_pause)

lemma head_grow_and_wait:
  assumes c: "at_grow st" and g: "grow_and_wait fuel h iw st = Some (Inr st1)"
  shows "at_head st1"
proof -
  from g obtain at mv sa sb where a: "aggressive_scroll fuel h iw 0 False st = Some (at, mv, sa)"
    and w: "wait_phase h sa = Some sb" and p: "Inr st1 = post_wait sb"
    by (rule grow_and_wait_SomeD)
  from head_post_wait [OF grow_wait_phase [OF grow_aggressive_scroll [OF c a] w] p [symmetric]]
  show ?thesis .
qed

lemma grow_CycleStart:
  "at_head s \<Longrightarrow> scrollsWithoutNewHearts s < maxScrollsWithoutNewHearts \<Longrightarrow>
   at_grow (emit [CycleStart] s)"
  by (simp add: at_head_def at_grow_def)

lemma head_main_loop:
  assumes "at_head st" and "main_loop inner fuel h st = Some (Inr st1)"
  shows "at_head st1"
proof (rule main_loop_invariant [where I = at_head and J = at_grow, OF assms(2) assms(1)])
  fix s s2
  assume c: "at_head s" and l: "scrollsWithoutNewHearts s < maxScrollsWithoutNewHearts"
    and b: "bottom_check (emit [CycleStart] s) = Inr s2"
  from head_bottom_check [OF grow_CycleStart [OF c l] b]
  show "if maxScrollsWithoutNewHearts \<le> scrollsWithoutNewHearts s2 then at_head s2 else at_grow s2" .
next
  fix s assume "at_head s" and "scrollsWithoutNewHearts s < maxScrollsWithoutNewHearts"
  then show "at_grow (emit [CycleStart] s)" by (rule grow_CycleStart)
next
  fix s iw s3
  assume "at_grow s" and "grow_and_wait inner h iw s = Some (Inr s3)"
  then show "at_head s3" by (rule head_grow_and_wait)
qed

lemma head_head_after:
  assumes "at_head st" and "head_after inner k h st = Some st1"
  shows "at_head st1"
proof (rule head_after_invariant [where I = at_head and J = at_grow, OF assms(2) assms(1)])
  fix s s2
  assume c: "at_head s" and l: "scrollsWithoutNewHearts s < maxScrollsWithoutNewHearts"
    and b: "bottom_check (emit [CycleStart] s) = Inr s2"
  from head_bottom_check [OF grow_CycleStart [OF c l] b]
  show "if maxScrollsWithoutNewHearts \<le> scrollsWithoutNewHearts s2 then at_head s2 else at_grow s2" .
next
  fix s assume "at_head s" and "scrollsWithoutNewHearts s < maxScrollsWithoutNewHearts"
  then show "at_grow (emit [CycleStart] s)" by (rule grow_CycleStart)
next
  fix s iw s3
  assume "at_grow s" and "grow_and_wait inner h iw s = Some (Inr s3)"
  then show "at_head s3" by (rule head_grow_and_wait)
qed

text \<open>
  No value above \<open>maxScrollsWithoutNewHearts\<close> is ever assigned to
  \<open>scrollsWithoutNewHearts\<close>: in a run that returns and, at the head of the main loop, in
  a run that does not, whatever the page, the callbacks and the timers do.
\<close>

lemma counter_never_exceeds_threshold:
  "clickAllHearts fuel h d = Some (Inr (s, st))
     \<Longrightarrow> list_all within_threshold (trace st)
         \<and> scrollsWithoutNewHearts st \<le> maxScrollsWithoutNewHearts"
  "initial_scan (init_state d) = Inr st0 \<Longrightarrow> head_after inner k h st0 = Some st1
     \<Longrightarrow> list_all within_threshold (trace st1)
         \<and> scrollsWithoutNewHearts st1 \<le> maxScrollsWithoutNewHearts"
proof -
  have init: "at_head (init_state d)" by (simp add: at_head_def init_state_def)
  {
    assume r: "clickAllHearts fuel h d = Some (Inr (s, st))"
    from r obtain sa sb where i: "initial_scan (init_state d) = Inr sa"
      and m: "main_loop fuel fuel h sa = Some (Inr sb)"
      and e: "st = emit [Disconnect] sb"
      by (rule clickAllHearts_SomeD)
    from head_main_loop [OF head_initial_scan [OF init i] m] e
    show "list_all within_threshold (trace st)
          \<and> scrollsWithoutNewHearts st \<le> maxScrollsWithoutNewHearts"
      by (simp add: at_head_def)
  }
  {
    assume i: "initial_scan (init_state d) = Inr st0" and a: "head_after inner k h st0 = Some st1"
    from head_head_after [OF head_initial_scan [OF init i] a]
    show "list_all within_threshold (trace st1)
          \<and> scrollsWithoutNewHearts st1 \<le> maxScrollsWithoutNewHearts"
      by (simp add: at_head_def)
  }
qed

text \<open>Whenever a run returns, the counter stands exactly at the threshold.\<close>

lemma returned_run_counter_at_threshold:
  assumes "clickAllHearts fuel h d = Some (Inr (s, st))"
  shows "scrollsWithoutNewHearts st = maxScrollsWithoutNewHearts"
proof -
  from assms obtain st1 st2 where i: "initial_scan (init_state d) = Inr st1"
    and m: "main_loop fuel fuel h st1 = Some (Inr st2)"
    and e: "st = emit [Disconnect] st2"
    by (rule clickAllHearts_SomeD)
  from counter_never_exceeds_threshold(1) [OF assms] main_loop_exit [OF m] e
  show ?thesis by simp
qed

text \<open>
  The counter is set back to zero after every pass that clicked a heart and that the main
  flow waits for: the first scan, the scan at the bottom, the scan after the wait, and the
  pass of the call of the callback that ends the wait.
\<close>

lemma reset_run_append:
  "reset_run q (xs @ ys) = (case reset_run q xs of None \<Rightarrow> None | Some q1 \<Rightarrow> reset_run q1 ys)"
  by (induction xs arbitrary: q) (simp_all split: option.splits)

lemma reset_run_target_events [simp]:
  "reset_run Idle (concat (map (target_events hs) xs)) = Some Idle"
  by (induction xs) (simp_all add: target_events_def reset_run_append)

lemma reset_run_pass_events [simp]: "reset_run Idle (pass_events hs) = Some Idle"
  by (simp add: pass_events_def)

lemma reset_step_by_callback:
  "by_callback e \<Longrightarrow> q \<noteq> Owed \<Longrightarrow> reset_step q e = Some Idle \<or> reset_step q e = Some Seen"
  by (cases q; cases e rule: by_callback.cases) simp_all

lemma reset_run_by_callback:
  "list_all by_callback evs \<Longrightarrow> q \<noteq> Owed \<Longrightarrow>
   reset_run q evs = Some Idle \<or> reset_run q evs = Some Seen"
proof (induction evs arbitrary: q)
  case Nil
  then show ?case by (cases q) simp_all
next
  case (Cons e evs)
  from Cons.prems have e: "by_callback e" and evs: "list_all by_callback evs" by simp_all
  from reset_step_by_callback [OF e Cons.prems(2)]
  obtain q1 where q1: "reset_step q e = Some q1" "q1 \<noteq> Owed" by auto
  from Cons.IH [OF evs q1(2)] q1(1) show ?case by simp
qed

lemma open_happen:
  assumes "reset_open st"
  shows "reset_open (snd (happen observing e st))"
proof -
  from happen_trace [of observing e st] obtain evs
    where t: "trace (snd (happen observing e st)) = trace st @ evs"
      and c: "list_all by_callback evs"
    by blast
  from assms obtain q where q: "reset_run Idle (trace st) = Some q" "q \<noteq> Owed"
    by (auto simp: reset_open_def)
  from reset_run_by_callback [OF c q(2)] t q(1) show ?thesis
    by (simp add: reset_open_def reset_run_append)
qed

lemma open_scroll_and_pause:
  assumes "reset_open st"
  shows "reset_open (scroll_and_pause h iw st)"
proof -
  from scroll_and_pause_trace [of h iw st] obtain evs where
    t: "trace (scroll_and_pause h iw st)
          = trace st @ [ScrollCommand, Delay aggressiveScrollPause] @ evs"
    and c: "list_all by_callback evs"
    by blast
  from assms have "reset_run Idle (trace st @ [ScrollCommand, Delay aggressiveScrollPause]) = Some Idle"
    by (auto simp: reset_open_def reset_run_append)
  moreover from t have "trace (scroll_and_pause h iw st)
          = (trace st @ [ScrollCommand, Delay aggressiveScrollPause]) @ evs"
    by simp
  ultimately have "reset_run Idle (trace (scroll_and_pause h iw st)) = reset_run Idle evs"
    by (simp only: reset_run_append option.case)
  with reset_run_by_callback [OF c, of Idle] show ?thesis
    by (simp add: reset_open_def)
qed

lemma open_aggressive_scroll:
  "reset_open st \<Longrightarrow> aggressive_scroll fuel h iw a mv st = Some (a1, mv1, st1) \<Longrightarrow> reset_open st1"
  by (erule aggressive_scroll_invariant [where P = reset_open, rotated])
     (rule open_scroll_and_pause)

text \<open>
  During a wait \<open>resolve\<close> is not null, so whatever does not end the wait leaves the
  trace and the flag alone, and the wait is ended either by a timer or by a pass of the
  callback.
\<close>

lemma happen_unresolved:
  assumes "resolve_set st" and "happen True e st = (False, s)"
  shows "trace s = trace st \<and> processedHeartsInCycle s = processedHeartsInCycle st
         \<and> resolve_set s"
proof (cases e)
  case (Mutation f ms)
  with assms show ?thesis
    by (auto simp: happen_def mutationCallback_begin_def Let_def split: if_splits)
next
  case CallbackResumes
  with assms show ?thesis
    by (auto simp: happen_def mutationCallback_resume_def processVisibleHearts_closed Let_def
          split: if_splits)
next
  case TimerFires
  with assms show ?thesis
    by (auto simp: happen_def timer_function_def split: if_splits)
qed

lemma happen_resolved:
  assumes "happen True e s = (True, st1)"
  shows "(trace st1 = trace s \<and> processedHeartsInCycle st1 = processedHeartsInCycle s)
         \<or> (\<exists>hs. trace st1 = trace s @ [Delay 300] @ pass_events hs @ [Pass ObserverScan (pass_count hs)]
                 \<and> processedHeartsInCycle st1 = (processedHeartsInCycle s \<or> 0 < pass_count hs))"
proof (cases e)
  case (Mutation f ms)
  with assms show ?thesis by (simp add: happen_def Let_def)
next
  case CallbackResumes
  with assms have "trace st1 = trace s @ [Delay 300] @ pass_events (hearts (page s))
                                @ [Pass ObserverScan (pass_count (hearts (page s)))]
      \<and> processedHeartsInCycle st1 = (processedHeartsInCycle s \<or> 0 < pass_count (hearts (page s)))"
    by (auto simp: happen_def mutationCallback_resume_def processVisibleHearts_closed Let_def
          split: if_splits)
  then show ?thesis by (intro disjI2 exI [of _ "hearts (page s)"])
next
  case TimerFires
  with assms show ?thesis
    by (auto simp: happen_def timer_function_def split: if_splits)
qed

lemma wait_events_resolved:
  "resolve_set st \<Longrightarrow> wait_events es st = Some st1 \<Longrightarrow>
   \<exists>e s. trace s = trace st \<and> processedHeartsInCycle s = processedHeartsInCycle st
         \<and> happen True e s = (True, st1)"
proof (induction es arbitrary: st)
  case Nil
  obtain r s where h: "happen True (next_by_the_clock st) st = (r, s)"
    by (cases "happen True (next_by_the_clock st) st")
  with Nil.prems(2) have "happen True (next_by_the_clock st) st = (True, st1)"
    by (cases r) simp_all
  then show ?case by blast
next
  case (Cons e es)
  obtain r s where h: "happen True e st = (r, s)" by (cases "happen True e st")
  show ?case
  proof (cases r)
    case True
    with Cons.prems(2) h have "happen True e st = (True, st1)" by simp
    then show ?thesis by blast
  next
    case False
    with h have u: "happen True e st = (False, s)" by simp
    from happen_unresolved [OF Cons.prems(1) u]
    have s: "trace s = trace st" "processedHeartsInCycle s = processedHeartsInCycle st"
      "resolve_set s" by simp_all
    from Cons.prems(2) u have "wait_events es s = Some st1" by simp
    from Cons.IH [OF s(3) this] s(1,2) show ?thesis by simp
  qed
qed

lemma reset_wait_phase:
  assumes o: "reset_open st" and w: "wait_phase h st = Some st1"
  shows "reset_after_wait st1"
proof -
  from w obtain sa sb where
    sa: "sa = (emit [Observe] (st\<lparr>processedHeartsInCycle := False\<rparr>))
            \<lparr>resolve_set := True,
             stale_timers := stale_timers st + (if timer_armed st then 1 else 0),
             timer_armed := True\<rparr>"
    and ev: "wait_events (wait_response h (page st)) sa = Some sb"
    and st1: "st1 = (emit [Disconnect] sb)\<lparr>resolve_set := False\<rparr>"
    by (rule wait_phase_SomeD)
  from o sa have a: "reset_run Idle (trace sa) = Some Idle" "\<not> processedHeartsInCycle sa"
    "resolve_set sa"
    by (auto simp: reset_open_def reset_run_append)
  from wait_events_resolved [OF a(3) ev] obtain e s where
    s: "trace s = trace sa" "processedHeartsInCycle s = processedHeartsInCycle sa"
    and r: "happen True e s = (True, sb)"
    by blast
  from happen_resolved [OF r] s a(1,2)
  have "reset_run Idle (trace sb) = Some (if processedHeartsInCycle sb then Seen else Idle)"
    by (auto simp: reset_run_append)
  with st1 show ?thesis by (simp add: reset_after_wait_def reset_run_append)
qed

lemma reset_post_wait:
  "reset_after_wait st \<Longrightarrow> post_wait st = Inr st1 \<Longrightarrow> reset_idle st1"
  by (auto simp: post_wait_def processVisibleHearts_closed reset_after_wait_def reset_idle_def
        Let_def reset_run_append split: if_splits)

lemma reset_initial_scan:
  "reset_idle st \<Longrightarrow> initial_scan st = Inr st1 \<Longrightarrow> reset_idle st1"
  by (auto simp: initial_scan_def processVisibleHearts_closed reset_idle_def Let_def
        reset_run_append)

lemma reset_bottom_check:
  "reset_idle st \<Longrightarrow> bottom_check st = Inr st1 \<Longrightarrow> reset_idle st1"
  by (auto simp: bottom_check_def processVisibleHearts_closed reset_idle_def Let_def
        reset_run_append)

lemma reset_CycleStart: "reset_idle s \<Longrightarrow> reset_idle (emit [CycleStart] s)"
  by (simp add: reset_idle_def reset_run_append)

lemma reset_idle_open: "reset_idle s \<Longrightarrow> reset_open s"
  by (simp add: reset_idle_def reset_open_def)

lemma reset_grow_and_wait:
  assumes c: "reset_open st" and g: "grow_and_wait fuel h iw st = Some (Inr st1)"
  shows "reset_idle st1"
proof -
  from g obtain at mv sa sb where a: "aggressive_scroll fuel h iw 0 False st = Some (at, mv, sa)"
    and w: "wait_phase h sa = Some sb" and p: "Inr st1 = post_wait sb"
    by (rule grow_and_wait_SomeD)
  from reset_post_wait [OF reset_wait_phase [OF open_aggressive_scroll [OF c a] w] p [symmetric]]
  show ?thesis .
qed

lemma reset_main_loop:
  assumes "reset_idle st" and "main_loop inner fuel h st = Some (Inr st1)"
  shows "reset_idle st1"
proof (rule main_loop_invariant [where I = reset_idle and J = reset_open, OF assms(2) assms(1)])
  fix s s2
  assume c: "reset_idle s" and b: "bottom_check (emit [CycleStart] s) = Inr s2"
  from reset_bottom_check [OF reset_CycleStart [OF c] b] have "reset_idle s2" .
  then show "if maxScrollsWithoutNewHearts \<le> scrollsWithoutNewHearts s2
             then reset_idle s2 else reset_open s2"
    by (simp add: reset_idle_open)
next
  fix s assume "reset_idle s"
  then show "reset_open (emit [CycleStart] s)" by (intro reset_idle_open reset_CycleStart)
next
  fix s iw s3
  assume "reset_open s" and "grow_and_wait inner h iw s = Some (Inr s3)"
  then show "reset_idle s3" by (rule reset_grow_and_wait)
qed

lemma reset_head_after:
  assumes "reset_idle st" and "head_after inner k h st = Some st1"
  shows "reset_idle st1"
proof (rule head_after_invariant [where I = reset_idle and J = reset_open, OF assms(2) assms(1)])
  fix s s2
  assume c: "reset_idle s" and b: "bottom_check (emit [CycleStart] s) = Inr s2"
  from reset_bottom_check [OF reset_CycleStart [OF c] b] have "reset_idle s2" .
  then show "if maxScrollsWithoutNewHearts \<le> scrollsWithoutNewHearts s2
             then reset_idle s2 else reset_open s2"
    by (simp add: reset_idle_open)
next
  fix s assume "reset_idle s"
  then show "reset_open (emit [CycleStart] s)" by (intro reset_idle_open reset_CycleStart)
next
  fix s iw s3
  assume "reset_open s" and "grow_and_wait inner h iw s = Some (Inr s3)"
  then show "reset_idle s3" by (rule reset_grow_and_wait)
qed

lemma counter_is_reset_after_a_pass_in_time:
  "clickAllHearts fuel h d = Some (Inr (s, st)) \<Longrightarrow> reset_run Idle (trace st) = Some Idle"
  "initial_scan (init_state d) = Inr st0 \<Longrightarrow> head_after inner k h st0 = Some st1
     \<Longrightarrow> reset_run Idle (trace st1) = Some Idle"
proof -
  have init: "reset_idle (init_state d)" by (simp add: reset_idle_def init_state_def)
  {
    assume r: "clickAllHearts fuel h d = Some (Inr (s, st))"
    from r obtain sa sb where i: "initial_scan (init_state d) = Inr sa"
      and m: "main_loop fuel fuel h sa = Some (Inr sb)"
      and e: "st = emit [Disconnect] sb"
      by (rule clickAllHearts_SomeD)
    from reset_main_loop [OF reset_initial_scan [OF init i] m] e
    show "reset_run Idle (trace st) = Some Idle"
      by (simp add: reset_idle_def reset_run_append)
  }
  {
    assume i: "initial_scan (init_state d) = Inr st0" and a: "head_after inner k h st0 = Some st1"
    from reset_head_after [OF reset_initial_scan [OF init i] a]
    show "reset_run Idle (trace st1) = Some Idle" by (simp add: reset_idle_def)
  }
qed

text \<open>
  Claim C2 says that the counter never exceeds \<open>maxScrollsWithoutNewHearts\<close> (which
  \<open>counter_never_exceeds_threshold\<close> proves) and that it is set back to zero whenever a
  pass has acted on a heart, the pass of the observer's callback included.  The callback
  tells the main flow through the flag \<open>processedHeartsInCycle\<close>, which line 219 reads
  when the wait is over; \<open>counter_is_reset_after_a_pass_in_time\<close> proves that this works
  for the call that ends the wait.  A call of the callback that the wait did not wait for
  sets the flag too late: on \<open>late_host\<close> its pass clicks a heart during the pause after
  a scroll command, line 201 clears the flag before line 219 reads it, and the next
  assignment to the counter is 3, not 0.  All values assigned are within the threshold and
  every pass that the main flow waited for is followed by its reset, so \<open>counter_run\<close>
  gives \<open>None\<close> for the reset that is missing after the late pass alone.
\<close>

theorem late_observer_pass_does_not_reset_counter:
  "clickAllHearts 4 late_host (window_dom [] 0 800 800)
     = Some (Inr (''Total hearts clicked: 1'', late_final))
   \<and> take 9 (drop 18 (trace late_final))
       = [Pass ObserverScan 1, ScrollCommand, Delay 300, Observe, Disconnect,
          Pass PostWaitScan 0, Counter 3, CycleStart, Pass BottomCheck 0]
   \<and> list_all within_threshold (trace late_final)
   \<and> reset_run Idle (trace late_final) = Some Idle
   \<and> counter_run False (trace late_final) = None"
  by code_simp

section \<open>Whole runs\<close>

lemmas run_defs = clickAllHearts_def initial_scan_def cycle_def grow_and_wait_def wait_phase_def
  next_by_the_clock_def happen_def mutationCallback_begin_def mutationCallback_resume_def timer_function_def
  scroll_and_pause_def post_wait_def bottom_check_def processVisibleHearts_closed
  canStillScroll_def cur_scrollTop_def cur_scrollHeight_def cur_clientHeight_def
  init_state_def Let_def maxScrollsWithoutNewHearts_def maxAggressiveScrollAttemptsAtBottom_def

lemma relevant_added_card [simp]: "relevantMutationDetected [added_card]"
  by (simp add: added_card_def hasNonScriptOrStyleNodes_def)

lemma show_nat_0: "show_nat 0 = ''0''"
  by code_simp

lemma show_nat_example: "show_nat 2048 = ''2048''"
  by code_simp

lemma at_effective_bottom_conv: "at_effective_bottom iw d = (\<not> canStillScroll iw d)"
  by (auto simp: at_effective_bottom_def canStillScroll_def cur_scrollTop_def
        cur_scrollHeight_def cur_clientHeight_def)

subsection \<open>A document that never grows (C1)\<close>

text \<open>
  A wait during which nothing changes the document and nothing starts the callback ends
  when the timer fires; a pause during which nothing changes the document changes nothing.
\<close>

lemma quiet_simps [simp]:
  "quiet d (Mutation f ms) = (f d = d \<and> \<not> relevantMutationDetected ms)"
  "quiet d CallbackResumes"
  "quiet d TimerFires"
  by (simp_all add: quiet_def)

lemma wait_events_quiet:
  assumes "list_all (quiet d) es"
    and "page st = d" and "callbacks_pending st = 0" and "stale_timers st = 0"
    and "timer_armed st" and "resolve_set st"
  shows "wait_events es st = Some (st\<lparr>timer_armed := False\<rparr>)"
  using assms(1)
proof (induction es)
  case Nil
  from assms(3-) show ?case
    by (simp add: next_by_the_clock_def happen_def timer_function_def)
next
  case (Cons e es)
  from Cons.prems assms(2-) have "happen True e st = (False, st) \<or> e = TimerFires"
    by (cases e) (simp_all add: happen_def mutationCallback_begin_def)
  then show ?case
  proof
    assume "happen True e st = (False, st)"
    with Cons.IH Cons.prems show ?thesis by simp
  next
    assume "e = TimerFires"
    with assms(4-) show ?thesis by (simp add: happen_def timer_function_def)
  qed
qed

lemma background_quiet:
  assumes "list_all (quiet d) es"
    and "page st = d" and "callbacks_pending st = 0" and "stale_timers st = 0"
    and "\<not> timer_armed st"
  shows "background es st = st"
  using assms(1)
proof (induction es)
  case Nil
  then show ?case by simp
next
  case (Cons e es)
  from Cons.prems assms(2-) have "happen False e st = (False, st)"
    by (cases e) (simp_all add: happen_def timer_function_def)
  with Cons.IH Cons.prems show ?case by simp
qed

lemma never_grows_run:
  assumes q: "querySelectorAll_unfilled d = []"
    and s: "scroll_response h (grid d = None) d = d"
    and p: "list_all (quiet d) (pause_response h d)"
    and w: "list_all (quiet d) (wait_response h d)"
  shows "\<exists>st. clickAllHearts (Suc (Suc (Suc (Suc (Suc k))))) h d
            = Some (Inr (''Total hearts clicked: 0'', st))
          \<and> scrollsWithoutNewHearts st = 4
          \<and> cycles (trace st) = (if canStillScroll (grid d = None) d then 4 else 2)
          \<and> page st = d"
  by (cases "canStillScroll (grid d = None) d")
     (simp_all add: clickAllHearts_def initial_scan_def cycle_def grow_and_wait_def wait_phase_def
        scroll_and_pause_def post_wait_def bottom_check_def processVisibleHearts_def
        aggressive_scroll_step aggressive_scroll_done at_effective_bottom_conv
        init_state_def Let_def maxScrollsWithoutNewHearts_def
        maxAggressiveScrollAttemptsAtBottom_def emit_def set_counter_def
        q s wait_events_quiet [OF w] background_quiet [OF p] show_nat_0 cycles_def
        del: aggressive_scroll.simps)

text \<open>
  Claim C1 says that on a document that never grows the main loop runs exactly
  \<open>maxScrollsWithoutNewHearts\<close> = 4 iterations.  On a window that is already at the bottom
  (\<open>canStillScroll\<close> is false) the scan at the bottom and the scan after the wait both count
  in the same iteration, and the loop is left after two iterations.
\<close>

theorem never_growing_page_counterexample:
  "never_grows static_host (window_dom [] 0 800 800)
   \<and> clickAllHearts 5 static_host (window_dom [] 0 800 800)
       = Some (Inr (''Total hearts clicked: 0'', bottom_final))
   \<and> cycles (trace bottom_final) = 2
   \<and> cycles (trace bottom_final) \<noteq> maxScrollsWithoutNewHearts"
proof -
  have "never_grows static_host (window_dom [] 0 800 800)"
    by (simp add: never_grows_def static_host_def querySelectorAll_unfilled_def window_dom_def)
  moreover have "clickAllHearts 5 static_host (window_dom [] 0 800 800)
       = Some (Inr (''Total hearts clicked: 0'', bottom_final))"
    by code_simp
  moreover have "cycles (trace bottom_final) = 2" by code_simp
  ultimately show ?thesis by (simp add: maxScrollsWithoutNewHearts_def)
qed

text \<open>
  Claim C1, amended.  On a document that never grows, \<open>clickAllHearts\<close> returns, with no
  heart clicked and with \<open>scrollsWithoutNewHearts\<close> equal to \<open>maxScrollsWithoutNewHearts\<close>.
  The main loop runs four iterations when the scroll region still reports room to scroll
  (\<open>canStillScroll\<close> is true), and two iterations when it does not: then the scan at the
  bottom and the scan after the wait each add one to the counter in the same iteration.
\<close>

theorem never_growing_page_stops_the_loop:
  assumes "never_grows h d" and "5 \<le> fuel"
  shows "\<exists>st. clickAllHearts fuel h d = Some (Inr (''Total hearts clicked: 0'', st))
           \<and> scrollsWithoutNewHearts st = maxScrollsWithoutNewHearts
           \<and> cycles (trace st) = (if canStillScroll (grid d = None) d then 4 else 2)
           \<and> page st = d"
proof -
  from assms(2) obtain k where "fuel = 5 + k" using le_Suc_ex by blast
  then have fuel: "fuel = Suc (Suc (Suc (Suc (Suc k))))" by simp
  from assms(1) have q: "querySelectorAll_unfilled d = []"
    and s: "scroll_response h (grid d = None) d = d"
    and p: "list_all (quiet d) (pause_response h d)"
    and w: "list_all (quiet d) (wait_response h d)"
    by (simp_all add: never_grows_def)
  from never_grows_run [OF q s p w, of k] fuel show ?thesis
    by (simp add: maxScrollsWithoutNewHearts_def)
qed

theorem never_growing_page_stops_the_loop_witness:
  "never_grows static_host (window_dom [done_heart] 0 800 2000)
   \<and> canStillScroll (grid (window_dom [done_heart] 0 800 2000) = None)
        (window_dom [done_heart] 0 800 2000)
   \<and> (\<exists>st. clickAllHearts 5 static_host (window_dom [done_heart] 0 800 2000)
              = Some (Inr (''Total hearts clicked: 0'', st))
           \<and> scrollsWithoutNewHearts st = maxScrollsWithoutNewHearts
           \<and> cycles (trace st) = 4)"
proof -
  let ?d = "window_dom [done_heart] 0 800 2000"
  have n: "never_grows static_host ?d"
    by (simp add: never_grows_def static_host_def querySelectorAll_unfilled_def window_dom_def
          done_heart_def)
  have c: "canStillScroll (grid ?d = None) ?d"
    by (simp add: canStillScroll_def window_dom_def)
  from never_growing_page_stops_the_loop [OF n order_refl] c n show ?thesis by auto
qed

subsection \<open>A document in two pages (C4)\<close>

lemma two_page_run_general:
  "\<exists>st. clickAllHearts (Suc (Suc (Suc (Suc k)))) (two_page_host n2 notify) (two_page_dom n1)
          = Some (Inr (''Total hearts clicked: '' @ show_nat (n1 + n2), st))
        \<and> totalHeartsClicked st = n1 + n2
        \<and> scrollsWithoutNewHearts st = 4
        \<and> page st = window_dom (replicate (n1 + n2) done_heart) 2400 800 3200"
  by (cases "0 < n2"; cases notify)
     (simp_all add: run_defs two_page_host_def two_page_dom_def window_dom_def
        after_pass_def emit_def set_counter_def replicate_add)

text \<open>
  Claim C4 says that a run over two pages clicks all the hearts and ends with the counter
  strictly below the threshold.  With two hearts on the first page and three on the second,
  the run clicks all five, and ends with the counter at the threshold: the main loop is
  left only when \<open>scrollsWithoutNewHearts\<close> has reached \<open>maxScrollsWithoutNewHearts\<close>.
\<close>

theorem two_page_run_counterexample:
  "clickAllHearts 4 (two_page_host 3 True) (two_page_dom 2)
     = Some (Inr (''Total hearts clicked: 5'', two_page_final))
   \<and> totalHeartsClicked two_page_final = 5
   \<and> scrollsWithoutNewHearts two_page_final = 4
   \<and> \<not> scrollsWithoutNewHearts two_page_final < maxScrollsWithoutNewHearts"
  by code_simp

text \<open>
  Claim C4, amended.  The document holds \<open>n1\<close> actionable hearts, and the page adds \<open>n2\<close>
  more during the first wait that follows a scroll to the bottom, with or without a
  mutation record for the observer.  The run returns, it has clicked all \<open>n1 + n2\<close> hearts,
  every heart is filled, and the counter stands at \<open>maxScrollsWithoutNewHearts\<close>.
\<close>

theorem two_page_run_clicks_every_heart:
  assumes "4 \<le> fuel"
  shows "\<exists>st. clickAllHearts fuel (two_page_host n2 notify) (two_page_dom n1)
              = Some (Inr (''Total hearts clicked: '' @ show_nat (n1 + n2), st))
           \<and> totalHeartsClicked st = n1 + n2
           \<and> hearts (page st) = replicate (n1 + n2) done_heart
           \<and> scrollsWithoutNewHearts st = maxScrollsWithoutNewHearts"
proof -
  from assms obtain k where "fuel = 4 + k" using le_Suc_ex by blast
  then have fuel: "fuel = Suc (Suc (Suc (Suc k)))" by simp
  from two_page_run_general [of k n2 notify n1] fuel show ?thesis
    by (auto simp: maxScrollsWithoutNewHearts_def window_dom_def)
qed

theorem two_page_run_clicks_every_heart_witness:
  "(4::nat) \<le> 6
   \<and> (\<exists>st. clickAllHearts 6 (two_page_host 3 False) (two_page_dom 2)
              = Some (Inr (''Total hearts clicked: 5'', st))
           \<and> totalHeartsClicked st = 5
           \<and> hearts (page st) = replicate 5 done_heart
           \<and> scrollsWithoutNewHearts st = maxScrollsWithoutNewHearts)"
proof -
  have f: "(4::nat) \<le> 6" by simp
  have s: "show_nat (2 + 3) = ''5''" by code_simp
  from two_page_run_clicks_every_heart [OF f, of 3 False 2] s show ?thesis by simp
qed

subsection \<open>A run that never returns\<close>

lemma scroll_events_snoc:
  "scroll_events n @ [ScrollCommand, Delay aggressiveScrollPause] = scroll_events (Suc n)"
  by (induction n) (simp_all add: scroll_events_def)

lemma aggressive_scroll_static:
  assumes "aggressive_scroll fuel static_host iw a mv st = Some (a1, mv1, st1)"
  shows "\<exists>n. st1 = emit (scroll_events n) st"
proof (rule aggressive_scroll_invariant [OF assms])
  have "st = emit (scroll_events 0) st" by (simp add: scroll_events_def emit_def)
  then show "\<exists>n. st = emit (scroll_events n) st" ..
next
  fix s :: state
  assume "\<exists>n. s = emit (scroll_events n) st"
  then obtain n where "s = emit (scroll_events n) st" ..
  then have "scroll_and_pause static_host iw s = emit (scroll_events (Suc n)) st"
    by (simp add: scroll_and_pause_def static_host_def emit_def Let_def
          scroll_events_snoc [symmetric] del: scroll_events_snoc)
  then show "\<exists>n. scroll_and_pause static_host iw s = emit (scroll_events n) st" ..
qed

text \<open>On a page at the bottom whose single heart never becomes filled, the run never returns.\<close>

lemma stubborn_loop_never_ends:
  "page st = window_dom [stubborn] 0 800 800 \<Longrightarrow> scrollsWithoutNewHearts st = 0 \<Longrightarrow>
   main_loop inner fuel static_host st = None"
proof (induction fuel arbitrary: st)
  case 0
  then show ?case by simp
next
  case (Suc fuel)
  let ?d = "window_dom [stubborn] 0 800 800"
  have pc: "pass_count (hearts ?d) = 1" "map clicked_heart (hearts ?d) = hearts ?d"
    by (simp_all add: window_dom_def stubborn_def pass_defs clicked_heart_def)
  have geo: "grid ?d = None" "\<not> canStillScroll True ?d"
    by (simp_all add: window_dom_def canStillScroll_def)
  have wr: "wait_response static_host ?d = []" by (simp add: static_host_def)
  show ?case
  proof (cases "cycle inner static_host st")
    case None
    with Suc.prems show ?thesis by (simp add: maxScrollsWithoutNewHearts_def)
  next
    case (Some r)
    from Some Suc.prems pc geo wr obtain s2 where r: "r = Inr (Continue s2)"
      and p: "page s2 = ?d" and c: "scrollsWithoutNewHearts s2 = 0"
      by (auto simp: cycle_def bottom_check_def grow_and_wait_def wait_phase_def post_wait_def
            happen_def timer_function_def next_by_the_clock_def mutationCallback_resume_def
            processVisibleHearts_closed Let_def maxScrollsWithoutNewHearts_def
            split: option.splits sum.splits prod.splits if_splits
            dest!: aggressive_scroll_static)
    from Suc.IH [OF p c] Some r Suc.prems show ?thesis
      by (simp add: maxScrollsWithoutNewHearts_def)
  qed
qed

lemma stubborn_run_never_returns:
  "clickAllHearts fuel static_host (window_dom [stubborn] 0 800 800) = None"
proof -
  have "initial_scan (init_state (window_dom [stubborn] 0 800 800)) = Inr stubborn_start"
    by (rule stubborn_heads)
  moreover have "main_loop fuel fuel static_host stubborn_start = None"
    by (rule stubborn_loop_never_ends) (simp_all add: stubborn_start_def)
  ultimately show ?thesis by (simp add: clickAllHearts_def)
qed

end
